theory Spec2Isabelle
  imports Complex_Main
begin

section \<open>The rules engine (class GameModel)\<close>

text \<open>
  The board is the JavaScript array of rows, each row an array of numbers
  (0 empty, 1 black, 2 white). Coordinates are JavaScript numbers holding
  integers, modelled as \<open>int\<close>. \<open>cellAt\<close> is the read \<open>board[row][col]\<close> and
  \<open>setCell\<close> the write \<open>board[row][col] = v\<close>; the source uses both only at
  cells that have passed a bounds check against \<open>boardSize\<close> (in \<open>isValidMove\<close>,
  in a loop condition, or when the move now undone was made), so they agree
  with JavaScript on every board that has \<open>boardSize\<close> rows of \<open>boardSize\<close>
  cells (\<open>squareBoard\<close> below, an invariant of every state the operations
  produce).
\<close>

type_synonym board = "int list list"
type_synonym cell = "int \<times> int"

definition cellAt :: "board \<Rightarrow> int \<Rightarrow> int \<Rightarrow> int" where
  "cellAt b r c = b ! nat r ! nat c"

definition setCell :: "board \<Rightarrow> int \<Rightarrow> int \<Rightarrow> int \<Rightarrow> board" where
  "setCell b r c v = b[nat r := (b ! nat r)[nat c := v]]"

datatype status = Playing | Won | Draw

datatype histMove = HistMove (m_row: int) (m_col: int) (m_player: int) (m_timestamp: int)

record GameModel =
  boardSize :: int
  board :: board
  currentPlayer :: int
  gameStatus :: status
  winner :: "int option"
  winLine :: "cell list"
  moveHistory :: "histMove list"
  moveCount :: int
  startTime :: "int option"

text \<open>
  \<open>Date.now()\<close> is read from a clock: \<open>clk k\<close> is what the \<open>k\<close>-th call returns.
  Operations that read the clock take the number of calls made so far and
  return it advanced.
\<close>

type_synonym clock = "nat \<Rightarrow> int"

definition initializeBoard :: "GameModel \<Rightarrow> GameModel" where
  "initializeBoard g =
     g\<lparr>board := map (\<lambda>row. map (\<lambda>col. 0) [0..boardSize g - 1]) [0..boardSize g - 1]\<rparr>"

definition GameModel_new :: GameModel where
  "GameModel_new = initializeBoard
     \<lparr>boardSize = 15, board = [], currentPlayer = 1, gameStatus = Playing,
      winner = None, winLine = [], moveHistory = [], moveCount = 0, startTime = None\<rparr>"

definition setBoardSize :: "int \<Rightarrow> GameModel \<Rightarrow> GameModel" where
  "setBoardSize sz g =
     (if sz = 15 \<or> sz = 19 then initializeBoard (g\<lparr>boardSize := sz\<rparr>) else g)"

definition isValidPosition :: "GameModel \<Rightarrow> int \<Rightarrow> int \<Rightarrow> bool" where
  "isValidPosition g row col \<longleftrightarrow> row \<ge> 0 \<and> row < boardSize g \<and> col \<ge> 0 \<and> col < boardSize g"

text \<open>
  \<open>getCell\<close> is modelled with JavaScript's own reading of \<open>board[row][col]\<close>:
  indexing a missing row throws a TypeError, indexing past the end of a row
  gives \<open>undefined\<close>.
\<close>

datatype js_error = TypeError
datatype jsval = Undefined | Num int

definition boardRead :: "board \<Rightarrow> int \<Rightarrow> int \<Rightarrow> js_error + jsval" where
  "boardRead b row col =
     (if 0 \<le> row \<and> nat row < length b
      then (if 0 \<le> col \<and> nat col < length (b ! nat row)
            then Inr (Num (b ! nat row ! nat col)) else Inr Undefined)
      else Inl TypeError)"

definition getCell :: "GameModel \<Rightarrow> int \<Rightarrow> int \<Rightarrow> js_error + jsval" where
  "getCell g row col =
     (if isValidPosition g row col then boardRead (board g) row col else Inr (Num (- 1)))"

definition isValidMove :: "GameModel \<Rightarrow> int \<Rightarrow> int \<Rightarrow> bool" where
  "isValidMove g row col \<longleftrightarrow>
     isValidPosition g row col \<and> cellAt (board g) row col = 0 \<and> gameStatus g = Playing"

definition directions :: "(int \<times> int) list" where
  "directions = [(0, 1), (1, 0), (1, 1), (1, - 1)]"

text \<open>
  The loop \<open>while (valid(r, c) && board[r][c] === player) { ...; r += dr; c += dc }\<close>
  of both \<open>checkWin\<close> functions: \<open>scanRun\<close> lists the cells it visits, in the order
  visited. The source only runs it with the steps of \<open>directions\<close> and their
  negations, none of which is \<open>(0, 0)\<close>; the test on the step is what makes the
  recursion total and is true at every call the source makes.
\<close>

function scanRun :: "board \<Rightarrow> int \<Rightarrow> int \<Rightarrow> int \<Rightarrow> int \<Rightarrow> int \<Rightarrow> int \<Rightarrow> cell list" where
  "scanRun b n player dr dc r c =
     (if (r \<ge> 0 \<and> r < n \<and> c \<ge> 0 \<and> c < n \<and> cellAt b r c = player) \<and> (dr \<noteq> 0 \<or> dc \<noteq> 0)
      then (r, c) # scanRun b n player dr dc (r + dr) (c + dc)
      else [])"
  by pat_completeness auto
termination
  by (relation "measure (\<lambda>(b, n, player, dr, dc, r, c).
        if dr > 0 then nat (n - r) else if dr < 0 then nat (r + 1)
        else if dc > 0 then nat (n - c) else nat (c + 1))") auto

declare scanRun.simps [simp del]

text \<open>
  \<open>GameModel.checkWin\<close>: for each direction in order, the run through the
  played cell is collected (cells in the positive direction are pushed, cells
  in the negative direction are unshifted); the first direction with five or
  more stores the first five cells of its line as \<open>winLine\<close>.
\<close>

definition lineThrough :: "GameModel \<Rightarrow> int \<Rightarrow> int \<Rightarrow> int \<times> int \<Rightarrow> cell list" where
  "lineThrough g row col d =
     (let player = cellAt (board g) row col; dRow = fst d; dCol = snd d in
      rev (scanRun (board g) (boardSize g) player (- dRow) (- dCol) (row - dRow) (col - dCol))
      @ [(row, col)]
      @ scanRun (board g) (boardSize g) player dRow dCol (row + dRow) (col + dCol))"

fun checkWinDirs :: "GameModel \<Rightarrow> int \<Rightarrow> int \<Rightarrow> (int \<times> int) list \<Rightarrow> bool \<times> GameModel" where
  "checkWinDirs g row col [] = (False, g)"
| "checkWinDirs g row col (d # ds) =
     (let line = lineThrough g row col d in
      if int (length line) \<ge> 5 then (True, g\<lparr>winLine := take 5 line\<rparr>)
      else checkWinDirs g row col ds)"

definition checkWin :: "GameModel \<Rightarrow> int \<Rightarrow> int \<Rightarrow> bool \<times> GameModel" where
  "checkWin g row col = checkWinDirs g row col directions"

text \<open>
  \<open>makeMove\<close> returns the boolean of the source, the new state and the
  advanced clock count.
\<close>

definition makeMove :: "clock \<Rightarrow> int \<Rightarrow> int \<Rightarrow> GameModel \<times> nat \<Rightarrow> bool \<times> GameModel \<times> nat" where
  "makeMove clk row col gt =
     (let g = fst gt; t = snd gt in
      if \<not> isValidMove g row col then (False, g, t)
      else
        let g1 = g\<lparr>moveHistory := moveHistory g @ [HistMove row col (currentPlayer g) (clk t)]\<rparr>;
            t1 = Suc t;
            g2 = g1\<lparr>board := setCell (board g1) row col (currentPlayer g1),
                    moveCount := moveCount g1 + 1\<rparr>;
            (g3, t3) = (if moveCount g2 = 1 then (g2\<lparr>startTime := Some (clk t1)\<rparr>, Suc t1)
                        else (g2, t1));
            (won, g4) = checkWin g3 row col
        in if won then (True, g4\<lparr>gameStatus := Won, winner := Some (currentPlayer g4)\<rparr>, t3)
           else if moveCount g4 = boardSize g4 * boardSize g4
           then (True, g4\<lparr>gameStatus := Draw\<rparr>, t3)
           else (True, g4\<lparr>currentPlayer := (if currentPlayer g4 = 1 then 2 else 1)\<rparr>, t3))"

definition undoMove :: "GameModel \<Rightarrow> bool \<times> GameModel" where
  "undoMove g =
     (if length (moveHistory g) = 0 then (False, g)
      else
        let lastMove = last (moveHistory g);
            g1 = g\<lparr>moveHistory := butlast (moveHistory g)\<rparr>;
            g2 = g1\<lparr>board := setCell (board g1) (m_row lastMove) (m_col lastMove) 0,
                    moveCount := moveCount g1 - 1\<rparr>;
            g3 = g2\<lparr>currentPlayer := m_player lastMove\<rparr>;
            g4 = (if gameStatus g3 \<noteq> Playing
                  then g3\<lparr>gameStatus := Playing, winner := None, winLine := []\<rparr> else g3)
        in (True, g4))"

definition getBoardCopy :: "GameModel \<Rightarrow> board" where
  "getBoardCopy g = map (\<lambda>row. row) (board g)"


text \<open>The nested loops \<open>for row ... for col ...\<close> visit the cells in row-major order.\<close>

definition allCells :: "int \<Rightarrow> cell list" where
  "allCells n = concat (map (\<lambda>row. map (\<lambda>col. (row, col)) [0..n - 1]) [0..n - 1])"

definition getEmptyCells :: "GameModel \<Rightarrow> cell list" where
  "getEmptyCells g = filter (\<lambda>(row, col). cellAt (board g) row col = 0) (allCells (boardSize g))"

text \<open>
  \<open>getRelevantEmptyCells\<close> collects keys \<open>"r,c"\<close> in a JavaScript \<open>Set\<close>, which keeps
  insertion order and ignores a key it already holds; the keys are turned back
  into cells at the end. The set is the list of cells in insertion order.
\<close>

definition addCell :: "cell list \<Rightarrow> cell \<Rightarrow> cell list" where
  "addCell s x = (if x \<in> set s then s else s @ [x])"

definition addAround :: "GameModel \<Rightarrow> int \<Rightarrow> int \<Rightarrow> int \<Rightarrow> cell list \<Rightarrow> cell list" where
  "addAround g radius row col s =
     fold (\<lambda>r s. fold (\<lambda>c s. if cellAt (board g) r c = 0 then addCell s (r, c) else s)
                    [max 0 (col - radius)..min (boardSize g - 1) (col + radius)] s)
          [max 0 (row - radius)..min (boardSize g - 1) (row + radius)] s"

definition getRelevantEmptyCells :: "GameModel \<Rightarrow> int \<Rightarrow> cell list" where
  "getRelevantEmptyCells g radius =
     (let relevantCells =
            fold (\<lambda>(row, col) s. if cellAt (board g) row col \<noteq> 0
                                  then addAround g radius row col s else s)
                 (allCells (boardSize g)) []
      in if length relevantCells = 0
         then (let center = boardSize g div 2 in
               fold (\<lambda>r s. fold (\<lambda>c s. if isValidPosition g r c \<and> cellAt (board g) r c = 0
                                         then addCell s (r, c) else s)
                              [center - 1..center + 1] s)
                    [center - 1..center + 1] relevantCells)
         else relevantCells)"

section \<open>The search engine (class AIPlayer)\<close>

datatype difficulty = Easy | Medium | Hard

record aiSettings =
  s_depth :: nat
  s_randomness :: real

record AIPlayer =
  ai_difficulty :: difficulty
  ai_player :: int
  ai_opponent :: int
  ai_currentSettings :: aiSettings

fun settings :: "difficulty \<Rightarrow> aiSettings" where
  "settings Easy = \<lparr>s_depth = 2, s_randomness = 3 / 10\<rparr>"
| "settings Medium = \<lparr>s_depth = 3, s_randomness = 1 / 10\<rparr>"
| "settings Hard = \<lparr>s_depth = 4, s_randomness = 5 / 100\<rparr>"

definition AIPlayer_new :: "difficulty \<Rightarrow> AIPlayer" where
  "AIPlayer_new d =
     \<lparr>ai_difficulty = d, ai_player = 2, ai_opponent = 1, ai_currentSettings = settings d\<rparr>"

definition setDifficulty :: "difficulty \<Rightarrow> AIPlayer \<Rightarrow> AIPlayer" where
  "setDifficulty d ai = ai\<lparr>ai_difficulty := d, ai_currentSettings := settings d\<rparr>"

text \<open>
  \<open>AIPlayer.checkWin\<close> runs the same two loops as the rules engine but only
  counts the cells they visit.
\<close>

definition countRun :: "board \<Rightarrow> int \<Rightarrow> int \<Rightarrow> int \<Rightarrow> int \<Rightarrow> int \<Rightarrow> int \<Rightarrow> int" where
  "countRun b n p dr dc r c = int (length (scanRun b n p dr dc r c))"

fun ai_checkWinDirs :: "board \<Rightarrow> int \<Rightarrow> int \<Rightarrow> int \<Rightarrow> int \<Rightarrow> (int \<times> int) list \<Rightarrow> bool" where
  "ai_checkWinDirs b n row col p [] = False"
| "ai_checkWinDirs b n row col p (d # ds) =
     (let dRow = fst d; dCol = snd d;
          count = 1 + countRun b n p dRow dCol (row + dRow) (col + dCol)
                    + countRun b n p (- dRow) (- dCol) (row - dRow) (col - dCol)
      in if count \<ge> 5 then True else ai_checkWinDirs b n row col p ds)"

definition ai_checkWin :: "board \<Rightarrow> int \<Rightarrow> int \<Rightarrow> int \<Rightarrow> int \<Rightarrow> bool" where
  "ai_checkWin b n row col p = ai_checkWinDirs b n row col p directions"

text \<open>
  \<open>findWinningMove\<close> writes the trial stone into the board it is given and
  takes it out again; the board is returned with the answer.
\<close>

fun findWinningScan :: "board \<Rightarrow> int \<Rightarrow> int \<Rightarrow> cell list \<Rightarrow> cell option \<times> board" where
  "findWinningScan b n p [] = (None, b)"
| "findWinningScan b n p ((row, col) # cs) =
     (if cellAt b row col = 0
      then (let b1 = setCell b row col p in
            if ai_checkWin b1 n row col p then (Some (row, col), setCell b1 row col 0)
            else findWinningScan (setCell b1 row col 0) n p cs)
      else findWinningScan b n p cs)"

definition findWinningMove :: "board \<Rightarrow> int \<Rightarrow> int \<Rightarrow> cell option \<times> board" where
  "findWinningMove b n p = findWinningScan b n p (allCells n)"

definition evaluateLine :: "board \<Rightarrow> int \<Rightarrow> int \<Rightarrow> int \<Rightarrow> int \<Rightarrow> int \<Rightarrow> int \<Rightarrow> int" where
  "evaluateLine b n row col dRow dCol p =
     (let (count, blocks, empty) =
            fold (\<lambda>i (count, blocks, empty).
                    let r = row + i * dRow; c = col + i * dCol in
                    if r < 0 \<or> r \<ge> n \<or> c < 0 \<or> c \<ge> n then (count, blocks + 1, empty)
                    else if cellAt b r c = p then (count + 1, blocks, empty)
                    else if cellAt b r c = 0 then (count, blocks, empty + 1)
                    else (count, blocks + 1, empty))
                 [0..4] (0 :: int, 0 :: int, 0 :: int)
      in if blocks \<ge> 2 then 0
         else if count = 5 then 10000
         else if count = 4 then (if blocks = 0 then 5000 else 1000)
         else if count = 3 then (if blocks = 0 then 500 else 100)
         else if count = 2 then (if blocks = 0 then 50 else 10)
         else if count = 1 then (if blocks = 0 then 5 else 1)
         else 0)"

definition evaluateAllLines :: "board \<Rightarrow> int \<Rightarrow> int \<Rightarrow> int" where
  "evaluateAllLines b n p =
     fold (\<lambda>(row, col) totalScore.
             fold (\<lambda>(dRow, dCol) totalScore. totalScore + evaluateLine b n row col dRow dCol p)
                  directions totalScore)
          (allCells n) 0"

definition evaluatePosition :: "AIPlayer \<Rightarrow> GameModel \<Rightarrow> int" where
  "evaluatePosition ai g =
     (if gameStatus g = Won then (if winner g = Some (ai_player ai) then 10000 else - 10000)
      else if gameStatus g = Draw then 0
      else evaluateAllLines (board g) (boardSize g) (ai_player ai)
           - evaluateAllLines (board g) (boardSize g) (ai_opponent ai))"

text \<open>Scores of the search: numbers together with \<open>-Infinity\<close> and \<open>Infinity\<close>.\<close>

datatype score = NegInf | Fin int | PosInf

fun score_less :: "score \<Rightarrow> score \<Rightarrow> bool" where
  "score_less NegInf NegInf = False"
| "score_less NegInf (Fin b) = True"
| "score_less NegInf PosInf = True"
| "score_less (Fin a) NegInf = False"
| "score_less (Fin a) (Fin b) = (a < b)"
| "score_less (Fin a) PosInf = True"
| "score_less PosInf _ = False"

definition score_le :: "score \<Rightarrow> score \<Rightarrow> bool" where
  "score_le a b \<longleftrightarrow> a = b \<or> score_less a b"

definition score_max :: "score \<Rightarrow> score \<Rightarrow> score" where
  "score_max a b = (if score_less a b then b else a)"

definition score_min :: "score \<Rightarrow> score \<Rightarrow> score" where
  "score_min a b = (if score_less b a then b else a)"

type_synonym searchResult = "(score \<times> cell option) \<times> GameModel \<times> nat"

text \<open>
  The two loops of \<open>minimax\<close> over \<open>relevantMoves\<close>. \<open>rec\<close> is the recursive call
  \<open>this.minimax(gameModel, depth - 1, ..., alpha, beta)\<close>. The results of
  \<open>makeMove\<close> and \<open>undoMove\<close> are ignored, as in the source.
\<close>

fun maxLoop :: "(GameModel \<times> nat \<Rightarrow> score \<Rightarrow> score \<Rightarrow> searchResult) \<Rightarrow> AIPlayer \<Rightarrow> clock
                \<Rightarrow> cell list \<Rightarrow> score \<Rightarrow> score \<Rightarrow> score \<Rightarrow> cell option
                \<Rightarrow> GameModel \<times> nat \<Rightarrow> searchResult" where
  "maxLoop rec ai clk [] alpha beta maxScore bestMove gt = ((maxScore, bestMove), gt)"
| "maxLoop rec ai clk ((row, col) # ms) alpha beta maxScore bestMove gt =
     (let originalPlayer = currentPlayer (fst gt);
          g1 = (fst gt)\<lparr>currentPlayer := ai_player ai\<rparr>;
          (ok, g2, t2) = makeMove clk row col (g1, snd gt);
          (result, g3, t3) = rec (g2, t2) alpha beta;
          (ok', g4) = undoMove g3;
          g5 = g4\<lparr>currentPlayer := originalPlayer\<rparr>;
          (maxScore', bestMove') =
            (if score_less maxScore (fst result) then (fst result, Some (row, col))
             else (maxScore, bestMove));
          alpha' = score_max alpha (fst result)
      in if score_le beta alpha' then ((maxScore', bestMove'), g5, t3)
         else maxLoop rec ai clk ms alpha' beta maxScore' bestMove' (g5, t3))"

fun minLoop :: "(GameModel \<times> nat \<Rightarrow> score \<Rightarrow> score \<Rightarrow> searchResult) \<Rightarrow> AIPlayer \<Rightarrow> clock
                \<Rightarrow> cell list \<Rightarrow> score \<Rightarrow> score \<Rightarrow> score \<Rightarrow> cell option
                \<Rightarrow> GameModel \<times> nat \<Rightarrow> searchResult" where
  "minLoop rec ai clk [] alpha beta minScore bestMove gt = ((minScore, bestMove), gt)"
| "minLoop rec ai clk ((row, col) # ms) alpha beta minScore bestMove gt =
     (let originalPlayer = currentPlayer (fst gt);
          g1 = (fst gt)\<lparr>currentPlayer := ai_opponent ai\<rparr>;
          (ok, g2, t2) = makeMove clk row col (g1, snd gt);
          (result, g3, t3) = rec (g2, t2) alpha beta;
          (ok', g4) = undoMove g3;
          g5 = g4\<lparr>currentPlayer := originalPlayer\<rparr>;
          (minScore', bestMove') =
            (if score_less (fst result) minScore then (fst result, Some (row, col))
             else (minScore, bestMove));
          beta' = score_min beta (fst result)
      in if score_le beta' alpha then ((minScore', bestMove'), g5, t3)
         else minLoop rec ai clk ms alpha beta' minScore' bestMove' (g5, t3))"

primrec minimax :: "AIPlayer \<Rightarrow> clock \<Rightarrow> nat \<Rightarrow> bool \<Rightarrow> GameModel \<times> nat \<Rightarrow> score \<Rightarrow> score
                    \<Rightarrow> searchResult" where
  "minimax ai clk 0 maximizing gt alpha beta =
     ((Fin (evaluatePosition ai (fst gt)), None), gt)"
| "minimax ai clk (Suc d) maximizing gt alpha beta =
     (if gameStatus (fst gt) \<noteq> Playing then ((Fin (evaluatePosition ai (fst gt)), None), gt)
      else
        let relevantMoves = getRelevantEmptyCells (fst gt) 2 in
        if maximizing
        then maxLoop (minimax ai clk d False) ai clk relevantMoves alpha beta NegInf None gt
        else minLoop (minimax ai clk d True) ai clk relevantMoves alpha beta PosInf None gt)"

text \<open>
  \<open>Math.random()\<close> returns a number in \<open>[0, 1)\<close>; its results are parameters, a
  real number for each call in the order the calls are made. The index
  \<open>Math.floor(Math.random() * k)\<close> is computed on the reals.
\<close>

definition addRandomness :: "AIPlayer \<Rightarrow> real \<Rightarrow> real \<Rightarrow> cell \<Rightarrow> cell list \<Rightarrow> cell" where
  "addRandomness ai u1 u2 bestMove alternativeMoves =
     (if u1 < s_randomness (ai_currentSettings ai) \<and> length alternativeMoves > 1
      then (let randomIndex = \<lfloor>u2 * real (min 3 (length alternativeMoves))\<rfloor>
            in alternativeMoves ! nat randomIndex)
      else bestMove)"

text \<open>
  \<open>nthOpt\<close> is JavaScript's array read: \<open>undefined\<close> (here \<open>None\<close>) past the end.
  \<open>centerMoves\<close> is the first loop of \<open>getRandomCenterMove\<close>: the cells within
  three of the centre that \<open>getCell\<close> reports empty.
\<close>

definition nthOpt :: "'a list \<Rightarrow> int \<Rightarrow> 'a option" where
  "nthOpt xs i = (if 0 \<le> i \<and> nat i < length xs then Some (xs ! nat i) else None)"

definition centerMoves :: "GameModel \<Rightarrow> cell list" where
  "centerMoves g =
     (let center = boardSize g div 2; radius = 3 in
      filter (\<lambda>(row, col). getCell g row col = Inr (Num 0))
        (concat (map (\<lambda>row. map (\<lambda>col. (row, col))
                       [max 0 (center - radius)..min (boardSize g - 1) (center + radius)])
                     [max 0 (center - radius)..min (boardSize g - 1) (center + radius)])))"

definition getRandomCenterMove :: "GameModel \<Rightarrow> real \<Rightarrow> cell option" where
  "getRandomCenterMove g u =
     (let moves = centerMoves g; emptyCells = getEmptyCells g
      in if length moves = 0 \<and> length emptyCells > 0
         then nthOpt emptyCells \<lfloor>u * real (length emptyCells)\<rfloor>
         else nthOpt moves \<lfloor>u * real (length moves)\<rfloor>)"

definition getBestMove :: "AIPlayer \<Rightarrow> clock \<Rightarrow> real \<Rightarrow> real \<Rightarrow> GameModel \<times> nat
                           \<Rightarrow> cell option \<times> GameModel \<times> nat" where
  "getBestMove ai clk u1 u2 gt =
     (let b = getBoardCopy (fst gt); n = boardSize (fst gt);
          (winMove, b1) = findWinningMove b n (ai_player ai)
      in case winMove of
           Some m \<Rightarrow> (Some (addRandomness ai u1 u2 m [m]), gt)
         | None \<Rightarrow>
            (let (blockMove, b2) = findWinningMove b1 n (ai_opponent ai)
             in case blockMove of
                  Some m \<Rightarrow> (Some (addRandomness ai u1 u2 m [m]), gt)
                | None \<Rightarrow>
                   (let (result, g', t') =
                          minimax ai clk (s_depth (ai_currentSettings ai)) True gt NegInf PosInf
                    in case snd result of
                         Some m \<Rightarrow>
                           (Some (addRandomness ai u1 u2 m (getRelevantEmptyCells g' 2)), g', t')
                       | None \<Rightarrow> (getRandomCenterMove g' u1, g', t'))))"


section \<open>Vocabulary of the properties\<close>

text \<open>A board of side \<open>n\<close>: \<open>n\<close> rows of \<open>n\<close> cells, each cell 0, 1 or 2.\<close>

definition squareBoard :: "int \<Rightarrow> board \<Rightarrow> bool" where
  "squareBoard n b \<longleftrightarrow> int (length b) = n \<and> (\<forall>row \<in> set b. int (length row) = n)"

definition cellsOk :: "board \<Rightarrow> bool" where
  "cellsOk b \<longleftrightarrow> (\<forall>row \<in> set b. \<forall>v \<in> set row. v = 0 \<or> v = 1 \<or> v = 2)"

text \<open>
  The states reachable by legal moves from a fresh board: a newly constructed
  engine, configured with a board size, then any number of accepted moves.
\<close>

inductive reachable :: "GameModel \<Rightarrow> bool" where
  fresh: "reachable (setBoardSize sz GameModel_new)"
| move: "reachable g \<Longrightarrow> isValidMove g row col
         \<Longrightarrow> reachable (fst (snd (makeMove clk row col (g, t))))"

text \<open>
  Calling \<open>makeMove\<close> for each cell of a list in turn (a refused move leaves the
  state as it is).
\<close>

definition playAll :: "clock \<Rightarrow> cell list \<Rightarrow> GameModel \<times> nat \<Rightarrow> GameModel \<times> nat" where
  "playAll clk ms gt = fold (\<lambda>(row, col) gt. snd (makeMove clk row col gt)) ms gt"

text \<open>
  What the search relies on: the board is square of side \<open>boardSize\<close>, and a game
  in progress has no winner and no winning line recorded.
\<close>

definition stateInv :: "GameModel \<Rightarrow> bool" where
  "stateInv g \<longleftrightarrow> squareBoard (boardSize g) (board g)
                 \<and> (gameStatus g = Playing \<longrightarrow> winner g = None \<and> winLine g = [])"

text \<open>
  \<open>stoneAt b n p x\<close>: the cell \<open>x\<close> lies on the board of side \<open>n\<close> and holds \<open>p\<close>
  (\<open>p = 0\<close>: it is empty). \<open>windowCells s d\<close> are the five cells from \<open>s\<close> in
  steps of \<open>d\<close>.
\<close>

definition stoneAt :: "board \<Rightarrow> int \<Rightarrow> int \<Rightarrow> cell \<Rightarrow> bool" where
  "stoneAt b n p x \<longleftrightarrow> 0 \<le> fst x \<and> fst x < n \<and> 0 \<le> snd x \<and> snd x < n \<and> cellAt b (fst x) (snd x) = p"

definition stepFrom :: "cell \<Rightarrow> int \<times> int \<Rightarrow> int \<Rightarrow> cell" where
  "stepFrom x d i = (fst x + i * fst d, snd x + i * snd d)"

definition windowCells :: "cell \<Rightarrow> int \<times> int \<Rightarrow> cell list" where
  "windowCells s d = map (stepFrom s d) [0..4]"

text \<open>
  \<open>fiveThrough b n p x\<close>: some window of five cells in one of the four
  directions contains \<open>x\<close> and is filled with stones of \<open>p\<close>.
  \<open>openFourAt b n p s d\<close>: four stones of \<open>p\<close> from \<open>s\<close> in direction \<open>d\<close>, with an
  empty cell of the board at either end.
\<close>

definition fiveThrough :: "board \<Rightarrow> int \<Rightarrow> int \<Rightarrow> cell \<Rightarrow> bool" where
  "fiveThrough b n p x \<longleftrightarrow>
     (\<exists>d \<in> set directions. \<exists>k \<in> {0..4}. \<forall>i \<in> {0..4}. stoneAt b n p (stepFrom x d (i - k)))"

definition openFourAt :: "board \<Rightarrow> int \<Rightarrow> int \<Rightarrow> cell \<Rightarrow> int \<times> int \<Rightarrow> bool" where
  "openFourAt b n p s d \<longleftrightarrow>
     (\<forall>i \<in> {0..3}. stoneAt b n p (stepFrom s d i))
     \<and> stoneAt b n 0 (stepFrom s d (- 1)) \<and> stoneAt b n 0 (stepFrom s d 4)"

text \<open>
  The counts of a window of \<open>evaluateLine\<close>: its own stones, and its blocked
  cells (off the board, or holding a stone that is not the player's); and the
  table of scores.
\<close>

definition ownCells :: "board \<Rightarrow> int \<Rightarrow> int \<Rightarrow> cell \<Rightarrow> int \<times> int \<Rightarrow> nat" where
  "ownCells b n p s d = length (filter (\<lambda>x. stoneAt b n p x) (windowCells s d))"

definition offBoard :: "int \<Rightarrow> cell \<Rightarrow> bool" where
  "offBoard n x \<longleftrightarrow> fst x < 0 \<or> fst x \<ge> n \<or> snd x < 0 \<or> snd x \<ge> n"

definition blockedCells :: "board \<Rightarrow> int \<Rightarrow> int \<Rightarrow> cell \<Rightarrow> int \<times> int \<Rightarrow> nat" where
  "blockedCells b n p s d =
     length (filter (\<lambda>x. offBoard n x \<or> (cellAt b (fst x) (snd x) \<noteq> p \<and> cellAt b (fst x) (snd x) \<noteq> 0))
                    (windowCells s d))"

fun scoreTable :: "nat \<Rightarrow> bool \<Rightarrow> int" where
  "scoreTable own anyBlock =
     (if own = 5 then 10000
      else if own = 4 then (if anyBlock then 1000 else 5000)
      else if own = 3 then (if anyBlock then 100 else 500)
      else if own = 2 then (if anyBlock then 10 else 50)
      else if own = 1 then (if anyBlock then 1 else 5)
      else 0)"


text \<open>The state between the stone being placed and the win check.\<close>

definition placed :: "clock \<Rightarrow> int \<Rightarrow> int \<Rightarrow> GameModel \<times> nat \<Rightarrow> GameModel" where
  "placed clk row col gt =
     (fst gt)\<lparr>moveHistory := moveHistory (fst gt) @ [HistMove row col (currentPlayer (fst gt)) (clk (snd gt))],
             board := setCell (board (fst gt)) row col (currentPlayer (fst gt)),
             moveCount := moveCount (fst gt) + 1,
             startTime := (if moveCount (fst gt) + 1 = 1 then Some (clk (Suc (snd gt)))
                           else startTime (fst gt))\<rparr>"

text \<open>
  The cell of the most recent move, and whether the win check finds a line of
  five or more through it on the present board.
\<close>

definition lastMove :: "GameModel \<Rightarrow> cell" where
  "lastMove g = (m_row (last (moveHistory g)), m_col (last (moveHistory g)))"


text \<open>No five stones of one player in a row, in any of the four directions.\<close>

definition noFive :: "GameModel \<Rightarrow> bool" where
  "noFive g \<longleftrightarrow>
     (\<forall>p x d. p \<noteq> 0 \<and> d \<in> set directions \<longrightarrow>
        \<not> (\<forall>i \<in> {0..4}. stoneAt (board g) (boardSize g) p (stepFrom x d i)))"

text \<open>
  Games on the 15 by 15 board. In \<open>wonGame\<close> black plays down column 7 from
  row 7 and white down column 8; black's fifth stone ends it; \<open>preWinGame\<close> is
  the position before that stone. In \<open>drawnGame\<close>
  the players fill the board in row-major order, each taking the cells of one
  colour of a pattern that has no five in a row.
\<close>

definition preWinGame :: GameModel where
  "preWinGame = fst (playAll (\<lambda>k. 0)
     [(7, 7), (7, 8), (8, 7), (8, 8), (9, 7), (9, 8), (10, 7), (10, 8)] (GameModel_new, 0))"

definition wonGame :: GameModel where
  "wonGame = fst (playAll (\<lambda>k. 0)
     [(7, 7), (7, 8), (8, 7), (8, 8), (9, 7), (9, 8), (10, 7), (10, 8), (11, 7)]
     (GameModel_new, 0))"


text \<open>
  A position on the 15 by 15 board in which black has four in a row down
  column 7 with both ends free.
\<close>

definition threatGame :: GameModel where
  "threatGame = fst (playAll (\<lambda>k. 0)
     [(7, 7), (0, 0), (8, 7), (0, 2), (9, 7), (0, 4), (10, 7)] (GameModel_new, 0))"

text \<open>
  \<open>sameButStartTime g g'\<close>: the two states agree on every field except possibly
  \<open>startTime\<close>. \<open>restoring rec\<close>: the search function \<open>rec\<close> hands back the state it
  was given, up to \<open>startTime\<close>.
\<close>

definition sameButStartTime :: "GameModel \<Rightarrow> GameModel \<Rightarrow> bool" where
  "sameButStartTime g g' \<longleftrightarrow> g'\<lparr>startTime := startTime g\<rparr> = g"

definition restoring :: "(GameModel \<times> nat \<Rightarrow> score \<Rightarrow> score \<Rightarrow> searchResult) \<Rightarrow> bool" where
  "restoring rec \<longleftrightarrow>
     (\<forall>g t alpha beta. stateInv g \<longrightarrow> sameButStartTime g (fst (snd (rec (g, t) alpha beta))))"

section \<open>Fresh boards\<close>

lemma initializeBoard_board:
  "board (initializeBoard g) = replicate (nat (boardSize g)) (replicate (nat (boardSize g)) 0)"
  by (simp add: initializeBoard_def map_replicate_const)

lemma new_board: "board GameModel_new = replicate 15 (replicate 15 0)"
  by (simp add: GameModel_new_def initializeBoard_board)

lemma new_boardSize: "boardSize GameModel_new = 15"
  by (simp add: GameModel_new_def initializeBoard_def)

lemma new_squareBoard: "squareBoard 15 (board GameModel_new)"
  by (simp add: new_board squareBoard_def)

lemma new_cellsOk: "cellsOk (board GameModel_new)"
  by (simp add: new_board cellsOk_def)

section \<open>Reading a cell\<close>

text \<open>
  Claim C10. For all integers \<open>row\<close>, \<open>col\<close> and every state whose board is square
  of side \<open>boardSize\<close> with cells 0, 1 or 2, \<open>getCell\<close> returns normally: the
  sentinel \<open>-1\<close> when the position is out of bounds, the content of the cell
  (0, 1 or 2) otherwise. It throws nothing; it has no write in the source, so
  the state is not part of its result. Every state reachable by legal moves
  has such a board (\<open>reachable_stateInv\<close>, \<open>reachable_cellsOk\<close>).
\<close>

theorem getCell_total:
  assumes "squareBoard (boardSize g) (board g)" and "cellsOk (board g)"
  shows "getCell g row col =
           Inr (Num (if isValidPosition g row col then cellAt (board g) row col else - 1))
         \<and> (isValidPosition g row col \<longrightarrow> cellAt (board g) row col \<in> {0, 1, 2})"
proof (cases "isValidPosition g row col")
  case False
  then show ?thesis by (simp add: getCell_def)
next
  case True
  then have r: "nat row < length (board g)" and r0: "0 \<le> row" and c0: "0 \<le> col"
    and cn: "col < boardSize g"
    using assms(1) by (auto simp: isValidPosition_def squareBoard_def)
  from r have mem: "board g ! nat row \<in> set (board g)" by simp
  with assms(1) have len: "int (length (board g ! nat row)) = boardSize g"
    by (simp add: squareBoard_def)
  with cn c0 have c: "nat col < length (board g ! nat row)" by linarith
  then have "board g ! nat row ! nat col \<in> set (board g ! nat row)" by simp
  with mem assms(2) have "cellAt (board g) row col \<in> {0, 1, 2}"
    by (auto simp: cellsOk_def cellAt_def)
  with True r r0 c c0 show ?thesis
    by (simp add: getCell_def boardRead_def cellAt_def)
qed

theorem getCell_total_witness:
  "squareBoard (boardSize GameModel_new) (board GameModel_new) \<and> cellsOk (board GameModel_new)
   \<and> getCell GameModel_new 20 3 = Inr (Num (- 1))
   \<and> getCell GameModel_new 7 7 = Inr (Num 0)"
proof -
  have s: "squareBoard (boardSize GameModel_new) (board GameModel_new)"
    by (simp add: new_boardSize new_squareBoard)
  have k: "cellsOk (board GameModel_new)" by (rule new_cellsOk)
  have v1: "\<not> isValidPosition GameModel_new 20 3"
    by (simp add: isValidPosition_def new_boardSize)
  have v2: "isValidPosition GameModel_new 7 7"
    by (simp add: isValidPosition_def new_boardSize)
  have c: "cellAt (board GameModel_new) 7 7 = 0" by (simp add: new_board cellAt_def)
  show ?thesis
    using s k getCell_total [OF s k, of 20 3] getCell_total [OF s k, of 7 7] v1 v2 c by simp
qed

section \<open>Configuring the board size\<close>

text \<open>
  Claim C5, as stated: a size outside 15 and 19 is reported to the caller as an
  error, never a silent no-op. \<open>setBoardSize\<close> returns nothing; at size 10 it
  leaves the engine exactly as it was.
\<close>

theorem setBoardSize_invalid_counterexample:
  "setBoardSize 10 GameModel_new = GameModel_new"
  by (simp add: setBoardSize_def)

text \<open>
  Claim C5, amended: for every size other than 15 and 19, \<open>setBoardSize\<close> leaves
  the engine unchanged and reports nothing; for size 15 or 19, configuring a
  newly constructed engine gives an empty board of that side with the first
  turn to player 1.
\<close>

theorem setBoardSize_behaviour:
  "(sz \<noteq> 15 \<and> sz \<noteq> 19 \<longrightarrow> setBoardSize sz g = g)
   \<and> (sz = 15 \<or> sz = 19 \<longrightarrow>
        setBoardSize sz GameModel_new =
          \<lparr>boardSize = sz, board = replicate (nat sz) (replicate (nat sz) 0),
           currentPlayer = 1, gameStatus = Playing, winner = None, winLine = [],
           moveHistory = [], moveCount = 0, startTime = None\<rparr>)"
  by (auto simp: setBoardSize_def GameModel_new_def initializeBoard_def map_replicate_const)

theorem setBoardSize_behaviour_witness:
  "setBoardSize 0 (setBoardSize 19 GameModel_new) = setBoardSize 19 GameModel_new
   \<and> boardSize (setBoardSize 19 GameModel_new) = 19
   \<and> board (setBoardSize 19 GameModel_new) = replicate 19 (replicate 19 0)
   \<and> currentPlayer (setBoardSize 19 GameModel_new) = 1"
  using setBoardSize_behaviour [of 0 "setBoardSize 19 GameModel_new"]
        setBoardSize_behaviour [of 19 GameModel_new]
  by simp

section \<open>Static evaluation of a window\<close>

lemma fold_three_counts:
  assumes f: "\<And>i c b e. f i (c, b, e) =
                (if P i then (c + 1, b, e) else if Q i then (c, b + 1, e) else (c, b, e + 1))"
  shows "fold f is (c, b, e :: int) =
           (c + int (length (filter P is)),
            b + int (length (filter (\<lambda>i. \<not> P i \<and> Q i) is)),
            e + int (length (filter (\<lambda>i. \<not> P i \<and> \<not> Q i) is)))"
  by (induction "is" arbitrary: c b e) (simp_all add: f)

lemma evaluateLine_fold:
  "fold (\<lambda>i (count, blocks, empty).
           let r = row + i * dRow; c = col + i * dCol in
           if r < 0 \<or> r \<ge> n \<or> c < 0 \<or> c \<ge> n then (count, blocks + 1, empty)
           else if cellAt b r c = p then (count + 1, blocks, empty)
           else if cellAt b r c = 0 then (count, blocks, empty + 1)
           else (count, blocks + 1, empty)) is (cnt, bl, em)
   = (cnt + int (length (filter (\<lambda>i. stoneAt b n p (stepFrom (row, col) (dRow, dCol) i)) is)),
      bl + int (length (filter (\<lambda>i. \<not> stoneAt b n p (stepFrom (row, col) (dRow, dCol) i) \<and>
                (offBoard n (stepFrom (row, col) (dRow, dCol) i)
                 \<or> (cellAt b (fst (stepFrom (row, col) (dRow, dCol) i)) (snd (stepFrom (row, col) (dRow, dCol) i)) \<noteq> p
                    \<and> cellAt b (fst (stepFrom (row, col) (dRow, dCol) i)) (snd (stepFrom (row, col) (dRow, dCol) i)) \<noteq> 0))) is)),
      em + int (length (filter (\<lambda>i. \<not> stoneAt b n p (stepFrom (row, col) (dRow, dCol) i) \<and>
              \<not> (offBoard n (stepFrom (row, col) (dRow, dCol) i)
                 \<or> (cellAt b (fst (stepFrom (row, col) (dRow, dCol) i)) (snd (stepFrom (row, col) (dRow, dCol) i)) \<noteq> p
                    \<and> cellAt b (fst (stepFrom (row, col) (dRow, dCol) i)) (snd (stepFrom (row, col) (dRow, dCol) i)) \<noteq> 0))) is)))"
  by (rule fold_three_counts) (auto simp: Let_def stoneAt_def offBoard_def stepFrom_def)

lemma blocked_not_own:
  "(\<not> stoneAt b n p x \<and> (offBoard n x \<or> (cellAt b (fst x) (snd x) \<noteq> p \<and> cellAt b (fst x) (snd x) \<noteq> 0)))
   \<longleftrightarrow> (offBoard n x \<or> (cellAt b (fst x) (snd x) \<noteq> p \<and> cellAt b (fst x) (snd x) \<noteq> 0))"
  by (auto simp: stoneAt_def offBoard_def)

lemma ownCells_le: "ownCells b n p s d \<le> 5"
proof -
  have "ownCells b n p s d \<le> length (windowCells s d)"
    unfolding ownCells_def by (rule length_filter_le)
  then show ?thesis by (simp add: windowCells_def)
qed

text \<open>
  Claim C8. For every board size, square board of that size, start cell,
  direction and player,
  \<open>evaluateLine\<close> is 0 when the window has two or more blocked cells (off the
  board or held by the other side) and otherwise the table value for the
  number of own stones: 10000 for 5; 5000, 500, 50, 5 for 4, 3, 2, 1 with no
  block; 1000, 100, 10, 1 with one block; 0 for none.
\<close>

theorem evaluateLine_table:
  assumes "squareBoard n b"
  shows "evaluateLine b n row col dRow dCol p =
     (if blockedCells b n p (row, col) (dRow, dCol) \<ge> 2 then 0
      else scoreTable (ownCells b n p (row, col) (dRow, dCol))
                      (blockedCells b n p (row, col) (dRow, dCol) \<noteq> 0))"
proof -
  have o: "ownCells b n p (row, col) (dRow, dCol)
           = length (filter (\<lambda>i. stoneAt b n p (stepFrom (row, col) (dRow, dCol) i)) [0..4])"
    by (simp add: ownCells_def windowCells_def filter_map comp_def)
  have bl: "blockedCells b n p (row, col) (dRow, dCol)
           = length (filter (\<lambda>i. offBoard n (stepFrom (row, col) (dRow, dCol) i)
                 \<or> (cellAt b (fst (stepFrom (row, col) (dRow, dCol) i)) (snd (stepFrom (row, col) (dRow, dCol) i)) \<noteq> p
                    \<and> cellAt b (fst (stepFrom (row, col) (dRow, dCol) i)) (snd (stepFrom (row, col) (dRow, dCol) i)) \<noteq> 0)) [0..4])"
    by (simp add: blockedCells_def windowCells_def filter_map comp_def)
  have le: "ownCells b n p (row, col) (dRow, dCol) \<le> 5" by (rule ownCells_le)
  show ?thesis
    unfolding evaluateLine_def evaluateLine_fold blocked_not_own o [symmetric] bl [symmetric]
    using le by simp
qed


theorem evaluateLine_table_witness:
  "squareBoard 15 ((replicate 15 (replicate 15 0))[7 := [0,0,0,0,0,2,2,2,0,0,0,0,2,2,2]])
   \<and> evaluateLine ((replicate 15 (replicate 15 0))[7 := [0,0,0,0,0,2,2,2,0,0,0,0,2,2,2]]) 15 7 5 0 1 2 = 500
   \<and> evaluateLine ((replicate 15 (replicate 15 0))[7 := [0,0,0,0,0,2,2,2,0,0,0,0,2,2,2]]) 15 7 11 0 1 2 = 100"
proof -
  let ?b = "(replicate 15 (replicate 15 0))[7 := [0,0,0,0,0,2,2,2,0,0,0,0,2,2,2::int]]"
  have sq: "squareBoard 15 ?b" by code_simp
  have w1: "windowCells (7, 5) (0, 1) = [(7,5),(7,6),(7,7),(7,8),(7,9)]"
    by (simp add: windowCells_def stepFrom_def upto_rec1)
  have w2: "windowCells (7, 11) (0, 1) = [(7,11),(7,12),(7,13),(7,14),(7,15)]"
    by (simp add: windowCells_def stepFrom_def upto_rec1)
  have o1: "ownCells ?b 15 2 (7, 5) (0, 1) = 3"
    by (simp add: ownCells_def w1 stoneAt_def cellAt_def)
  have b1: "blockedCells ?b 15 2 (7, 5) (0, 1) = 0"
    by (simp add: blockedCells_def w1 offBoard_def cellAt_def)
  have o2: "ownCells ?b 15 2 (7, 11) (0, 1) = 3"
    by (simp add: ownCells_def w2 stoneAt_def cellAt_def)
  have b2: "blockedCells ?b 15 2 (7, 11) (0, 1) = 1"
    by (simp add: blockedCells_def w2 offBoard_def cellAt_def)
  show ?thesis
    using sq evaluateLine_table [OF sq, of 7 5 0 1 2] evaluateLine_table [OF sq, of 7 11 0 1 2]
    by (simp add: o1 b1 o2 b2)
qed

section \<open>Moves and their reversal\<close>

lemma setCell_undo: "cellAt b r c = v0 \<Longrightarrow> setCell (setCell b r c v) r c v0 = b"
proof (cases "nat r < length b")
  case True
  assume "cellAt b r c = v0"
  then have "(b ! nat r)[nat c := v0] = b ! nat r"
    by (metis cellAt_def list_update_id)
  with True show ?thesis by (simp add: setCell_def)
next
  case False
  then show ?thesis by (simp add: setCell_def list_update_beyond)
qed

lemma squareBoard_setCell:
  assumes "squareBoard n b"
  shows "squareBoard n (setCell b r c v)"
proof (cases "nat r < length b")
  case True
  then have "b ! nat r \<in> set b" by simp
  with assms have "int (length ((b ! nat r)[nat c := v])) = n" by (simp add: squareBoard_def)
  moreover have "set (b[nat r := (b ! nat r)[nat c := v]]) \<subseteq> insert ((b ! nat r)[nat c := v]) (set b)"
    by (rule set_update_subset_insert)
  ultimately show ?thesis using assms unfolding squareBoard_def setCell_def by auto
next
  case False
  with assms show ?thesis by (simp add: setCell_def list_update_beyond)
qed

lemma checkWinDirs_frame:
  "checkWinDirs g row col ds = (w, g') \<Longrightarrow>
     g' = g\<lparr>winLine := winLine g'\<rparr> \<and> (\<not> w \<longrightarrow> g' = g)"
  by (induction ds) (auto simp: Let_def split: if_splits)

lemma checkWin_frame:
  "checkWin g row col = (w, g') \<Longrightarrow> g' = g\<lparr>winLine := winLine g'\<rparr> \<and> (\<not> w \<longrightarrow> g' = g)"
  unfolding checkWin_def by (rule checkWinDirs_frame)

lemma makeMove_unfold:
  assumes "isValidMove g row col"
  shows "makeMove clk row col (g, t) =
           (let p = placed clk row col (g, t);
                t' = (if moveCount g = 0 then Suc (Suc t) else Suc t);
                (won, g4) = checkWin p row col
            in if won then (True, g4\<lparr>gameStatus := Won, winner := Some (currentPlayer g4)\<rparr>, t')
               else if moveCount g4 = boardSize g4 * boardSize g4
               then (True, g4\<lparr>gameStatus := Draw\<rparr>, t')
               else (True, g4\<lparr>currentPlayer := (if currentPlayer g4 = 1 then 2 else 1)\<rparr>, t'))"
proof (cases "moveCount g = 0")
  case True
  with assms show ?thesis by (simp add: makeMove_def placed_def Let_def)
next
  case False
  with assms show ?thesis by (simp add: makeMove_def placed_def Let_def)
qed

lemma makeMove_valid:
  assumes "isValidMove g row col"
  shows "makeMove clk row col (g, t) =
           (let p = placed clk row col (g, t) in
            (True,
             if fst (checkWin p row col)
             then p\<lparr>winLine := winLine (snd (checkWin p row col)), gameStatus := Won,
                    winner := Some (currentPlayer g)\<rparr>
             else if moveCount g + 1 = boardSize g * boardSize g then p\<lparr>gameStatus := Draw\<rparr>
             else p\<lparr>currentPlayer := (if currentPlayer g = 1 then 2 else 1)\<rparr>,
             if moveCount g = 0 then Suc (Suc t) else Suc t))"
proof -
  let ?p = "placed clk row col (g, t)"
  obtain w g' where cw: "checkWin ?p row col = (w, g')" by (cases "checkWin ?p row col")
  from checkWin_frame [OF cw] have fr: "g' = ?p\<lparr>winLine := winLine g'\<rparr>" and nf: "\<not> w \<Longrightarrow> g' = ?p"
    by auto
  have pf: "currentPlayer ?p = currentPlayer g" "moveCount ?p = moveCount g + 1"
    "boardSize ?p = boardSize g" by (simp_all add: placed_def)
  show ?thesis
  proof (cases w)
    case True
    have "g'\<lparr>gameStatus := Won, winner := Some (currentPlayer g')\<rparr>
          = ?p\<lparr>winLine := winLine g', gameStatus := Won, winner := Some (currentPlayer g)\<rparr>"
      by (subst fr, subst (2) fr) (simp add: pf)
    with True cw show ?thesis
      by (simp add: makeMove_unfold [OF assms] Let_def)
  next
    case False
    with nf have "g' = ?p" by simp
    with False cw show ?thesis
      by (simp add: makeMove_unfold [OF assms] Let_def pf)
  qed
qed

lemma makeMove_invalid: "\<not> isValidMove g row col \<Longrightarrow> makeMove clk row col (g, t) = (False, g, t)"
  by (simp add: makeMove_def)

lemma undo_make:
  assumes v: "isValidMove g row col" and w: "winner g = None" and l: "winLine g = []"
  shows "undoMove (fst (snd (makeMove clk row col (g, t)))) =
           (True, g\<lparr>startTime := (if moveCount g = 0 then Some (clk (Suc t)) else startTime g)\<rparr>)"
proof -
  from v have e: "cellAt (board g) row col = 0" and s: "gameStatus g = Playing"
    by (simp_all add: isValidMove_def)
  have b: "setCell (setCell (board g) row col (currentPlayer g)) row col 0 = board g"
    by (rule setCell_undo [OF e])
  show ?thesis
    unfolding makeMove_valid [OF v] Let_def
    by (simp add: undoMove_def placed_def Let_def b s w [symmetric] l [symmetric])
qed


lemma fresh_cases:
  "setBoardSize sz GameModel_new = GameModel_new
   \<or> setBoardSize sz GameModel_new = GameModel_new\<lparr>boardSize := 19, board := replicate 19 (replicate 19 0)\<rparr>"
  by (auto simp: setBoardSize_def GameModel_new_def initializeBoard_def map_replicate_const)

lemma fresh_fields:
  "gameStatus (setBoardSize sz GameModel_new) = Playing"
  "winner (setBoardSize sz GameModel_new) = None"
  "winLine (setBoardSize sz GameModel_new) = []"
  "moveHistory (setBoardSize sz GameModel_new) = []"
  "moveCount (setBoardSize sz GameModel_new) = 0"
  "currentPlayer (setBoardSize sz GameModel_new) = 1"
  "boardSize (setBoardSize sz GameModel_new) = 15 \<or> boardSize (setBoardSize sz GameModel_new) = 19"
  "board (setBoardSize sz GameModel_new) =
     replicate (nat (boardSize (setBoardSize sz GameModel_new)))
               (replicate (nat (boardSize (setBoardSize sz GameModel_new))) 0)"
  by (auto simp: setBoardSize_def GameModel_new_def initializeBoard_def map_replicate_const)

lemma stateInv_fresh: "stateInv (setBoardSize sz GameModel_new)"
  using fresh_cases [of sz]
  by (auto simp: stateInv_def fresh_fields(1-3) new_boardSize new_board squareBoard_def)

lemma makeMove_fields:
  assumes "isValidMove g row col"
  shows "board (fst (snd (makeMove clk row col (g, t)))) = setCell (board g) row col (currentPlayer g)"
    and "boardSize (fst (snd (makeMove clk row col (g, t)))) = boardSize g"
    and "moveCount (fst (snd (makeMove clk row col (g, t)))) = moveCount g + 1"
    and "moveHistory (fst (snd (makeMove clk row col (g, t)))) =
           moveHistory g @ [HistMove row col (currentPlayer g) (clk t)]"
    and "gameStatus (fst (snd (makeMove clk row col (g, t)))) =
           (if fst (checkWin (placed clk row col (g, t)) row col) then Won
            else if moveCount g + 1 = boardSize g * boardSize g then Draw else Playing)"
    and "gameStatus (fst (snd (makeMove clk row col (g, t)))) = Playing \<Longrightarrow>
           winner (fst (snd (makeMove clk row col (g, t)))) = winner g
           \<and> winLine (fst (snd (makeMove clk row col (g, t)))) = winLine g"
  using assms
  by (simp_all add: makeMove_valid [OF assms] Let_def placed_def isValidMove_def split: if_splits)

lemma stateInv_makeMove:
  assumes "stateInv g"
  shows "stateInv (fst (snd (makeMove clk row col (g, t))))"
proof (cases "isValidMove g row col")
  case False
  with assms show ?thesis by (simp add: makeMove_invalid)
next
  case True
  then have pl: "gameStatus g = Playing" by (simp add: isValidMove_def)
  from assms have sq: "squareBoard (boardSize g) (board g)" by (simp add: stateInv_def)
  show ?thesis
    unfolding stateInv_def
    using makeMove_fields(6) [OF True, of clk t] assms pl
    by (simp add: makeMove_fields(1,2) [OF True] squareBoard_setCell [OF sq] stateInv_def)
qed

lemma stateInv_undoMove: "stateInv g \<Longrightarrow> stateInv (snd (undoMove g))"
  by (simp add: undoMove_def Let_def stateInv_def squareBoard_setCell)

lemma reachable_stateInv: "reachable g \<Longrightarrow> stateInv g"
  by (induction rule: reachable.induct) (simp_all add: stateInv_fresh stateInv_makeMove)

lemma reachable_new: "reachable GameModel_new"
  using reachable.fresh [of 0] by (simp add: setBoardSize_def)

lemma reachable_makeMove: "reachable g \<Longrightarrow> reachable (fst (snd (makeMove clk row col (g, t))))"
  by (cases "isValidMove g row col") (simp_all add: reachable.move makeMove_invalid)

lemma reachable_playAll: "reachable (fst gt) \<Longrightarrow> reachable (fst (playAll clk ms gt))"
proof (induction ms arbitrary: gt)
  case Nil
  then show ?case by (simp add: playAll_def)
next
  case (Cons m ms)
  obtain row col where m: "m = (row, col)" by (cases m)
  obtain g t where gt: "gt = (g, t)" by (cases gt)
  from Cons.prems gt have "reachable (fst (snd (makeMove clk row col gt)))"
    by (simp add: reachable_makeMove)
  from Cons.IH [OF this] show ?case by (simp add: playAll_def m)
qed

text \<open>
  Claim C1. In every state reachable by legal moves from a fresh board, a legal
  move followed at once by \<open>undoMove\<close> succeeds twice and restores the board, the
  player to move, the move count, the status, the winner and the winning line
  (and the move history) to what they were before the move.
\<close>

theorem makeMove_undoMove_roundtrip:
  assumes "reachable g" and "isValidMove g row col"
    and "makeMove clk row col (g, t) = (ok, g1, t1)" and "undoMove g1 = (ok', g2)"
  shows "ok \<and> ok' \<and> board g2 = board g \<and> currentPlayer g2 = currentPlayer g
         \<and> moveCount g2 = moveCount g \<and> gameStatus g2 = gameStatus g
         \<and> winner g2 = winner g \<and> winLine g2 = winLine g
         \<and> moveHistory g2 = moveHistory g \<and> boardSize g2 = boardSize g"
proof -
  from assms(2) have pl: "gameStatus g = Playing" by (simp add: isValidMove_def)
  with reachable_stateInv [OF assms(1)] have w: "winner g = None" and l: "winLine g = []"
    by (simp_all add: stateInv_def)
  have ok: "ok" using makeMove_valid [OF assms(2), of clk t] assms(3) by (simp add: Let_def)
  have "g1 = fst (snd (makeMove clk row col (g, t)))" using assms(3) by simp
  with undo_make [OF assms(2) w l, of clk t] assms(4) ok show ?thesis by auto
qed

theorem makeMove_undoMove_roundtrip_witness:
  "reachable preWinGame \<and> isValidMove preWinGame 11 7
   \<and> gameStatus (fst (snd (makeMove (\<lambda>k. 0) 11 7 (preWinGame, 9)))) = Won
   \<and> (let g2 = snd (undoMove (fst (snd (makeMove (\<lambda>k. 0) 11 7 (preWinGame, 9))))) in
        board g2 = board preWinGame \<and> currentPlayer g2 = 1 \<and> moveCount g2 = 8
        \<and> gameStatus g2 = Playing \<and> winner g2 = None \<and> winLine g2 = []
        \<and> moveHistory g2 = moveHistory preWinGame)"
proof -
  have r: "reachable preWinGame"
    unfolding preWinGame_def by (rule reachable_playAll) (simp add: reachable_new)
  have v: "isValidMove preWinGame 11 7" by code_simp
  have w: "gameStatus (fst (snd (makeMove (\<lambda>k. 0) 11 7 (preWinGame, 9)))) = Won" by code_simp
  obtain ok g1 t1 where m: "makeMove (\<lambda>k. 0) 11 7 (preWinGame, 9) = (ok, g1, t1)"
    by (cases "makeMove (\<lambda>k. 0) 11 7 (preWinGame, 9)") auto
  obtain ok' g2 where u: "undoMove g1 = (ok', g2)" by (cases "undoMove g1") auto
  have f: "currentPlayer preWinGame = 1" "moveCount preWinGame = 8"
    "gameStatus preWinGame = Playing" "winner preWinGame = None" "winLine preWinGame = []"
    by code_simp+
  from makeMove_undoMove_roundtrip [OF r v m u] r v w m u show ?thesis
    by (simp add: f)
qed


section \<open>Runs of stones and the win check\<close>

lemma stepFrom_next: "stepFrom (r + dr, c + dc) (dr, dc) i = stepFrom (r, c) (dr, dc) (i + 1)"
  by (simp add: stepFrom_def algebra_simps)

lemma stepFrom_Suc:
  "stepFrom (r, c) (dr, dc) (int (Suc j)) = stepFrom (r + dr, c + dc) (dr, dc) (int j)"
  by (simp add: stepFrom_def algebra_simps)

lemma stepFrom_0: "stepFrom x d 0 = x"
  by (simp add: stepFrom_def)

lemma scanRun_char:
  assumes "dr \<noteq> 0 \<or> dc \<noteq> 0"
  shows "\<exists>k. scanRun b n p dr dc r c = map (\<lambda>i. stepFrom (r, c) (dr, dc) (int i)) [0..<k]
             \<and> (\<forall>i<k. stoneAt b n p (stepFrom (r, c) (dr, dc) (int i)))
             \<and> \<not> stoneAt b n p (stepFrom (r, c) (dr, dc) (int k))"
  using assms
proof (induction b n p dr dc r c rule: scanRun.induct)
  case (1 b n p dr dc r c)
  show ?case
  proof (cases "stoneAt b n p (r, c)")
    case False
    then have "scanRun b n p dr dc r c = []"
      by (subst scanRun.simps) (auto simp: stoneAt_def)
    with False show ?thesis by (intro exI [of _ 0]) (simp add: stepFrom_0)
  next
    case True
    with "1.prems" have g: "(r \<ge> 0 \<and> r < n \<and> c \<ge> 0 \<and> c < n \<and> cellAt b r c = p) \<and> (dr \<noteq> 0 \<or> dc \<noteq> 0)"
      by (auto simp: stoneAt_def)
    from "1.IH" [OF g "1.prems"] obtain k where
      k: "scanRun b n p dr dc (r + dr) (c + dc) = map (\<lambda>i. stepFrom (r + dr, c + dc) (dr, dc) (int i)) [0..<k]"
      and s: "\<forall>i<k. stoneAt b n p (stepFrom (r + dr, c + dc) (dr, dc) (int i))"
      and e: "\<not> stoneAt b n p (stepFrom (r + dr, c + dc) (dr, dc) (int k))"
      by blast
    have sr: "scanRun b n p dr dc r c = (r, c) # scanRun b n p dr dc (r + dr) (c + dc)"
      using g by (subst scanRun.simps) simp
    have m: "map (\<lambda>i. stepFrom (r, c) (dr, dc) (int i)) [0..<Suc k]
             = (r, c) # map (\<lambda>i. stepFrom (r + dr, c + dc) (dr, dc) (int i)) [0..<k]"
      by (simp add: upt_conv_Cons map_Suc_upt [symmetric] stepFrom_0 del: upt_Suc)
         (simp add: stepFrom_def algebra_simps)
    have s': "\<forall>i<Suc k. stoneAt b n p (stepFrom (r, c) (dr, dc) (int i))"
    proof (intro allI impI)
      fix i assume "i < Suc k"
      show "stoneAt b n p (stepFrom (r, c) (dr, dc) (int i))"
      proof (cases i)
        case 0
        with True show ?thesis by (simp add: stepFrom_0)
      next
        case (Suc j)
        with \<open>i < Suc k\<close> s have "stoneAt b n p (stepFrom (r + dr, c + dc) (dr, dc) (int j))" by simp
        with Suc show ?thesis by (simp only: stepFrom_Suc)
      qed
    qed
    have e': "\<not> stoneAt b n p (stepFrom (r, c) (dr, dc) (int (Suc k)))"
      unfolding stepFrom_Suc by (rule e)
    show ?thesis
      by (intro exI [of _ "Suc k"]) (use sr k m s' e' in simp)
  qed
qed


lemma directions_nonzero: "d \<in> set directions \<Longrightarrow> fst d \<noteq> 0 \<or> snd d \<noteq> 0"
  by (auto simp: directions_def)

lemma lineThrough_char:
  assumes d: "d \<in> set directions"
  shows "\<exists>kn kp. lineThrough g row col d
                    = map (\<lambda>i. stepFrom (row, col) d (int i - int kn)) [0..<kn + 1 + kp]
           \<and> (\<forall>j. 1 \<le> j \<and> j \<le> int kn \<longrightarrow>
                  stoneAt (board g) (boardSize g) (cellAt (board g) row col) (stepFrom (row, col) d (- j)))
           \<and> (\<forall>j. 1 \<le> j \<and> j \<le> int kp \<longrightarrow>
                  stoneAt (board g) (boardSize g) (cellAt (board g) row col) (stepFrom (row, col) d j))
           \<and> \<not> stoneAt (board g) (boardSize g) (cellAt (board g) row col)
                   (stepFrom (row, col) d (- int kn - 1))
           \<and> \<not> stoneAt (board g) (boardSize g) (cellAt (board g) row col)
                   (stepFrom (row, col) d (int kp + 1))"
proof -
  obtain dr dc where dd: "d = (dr, dc)" by (cases d)
  let ?b = "board g" and ?n = "boardSize g" and ?p = "cellAt (board g) row col"
  from directions_nonzero [OF d] dd have nz: "dr \<noteq> 0 \<or> dc \<noteq> 0" by simp
  then have nz': "- dr \<noteq> 0 \<or> - dc \<noteq> 0" by simp
  from scanRun_char [OF nz, of ?b ?n ?p "row + dr" "col + dc"] obtain kp where
    pos: "scanRun ?b ?n ?p dr dc (row + dr) (col + dc)
            = map (\<lambda>i. stepFrom (row + dr, col + dc) (dr, dc) (int i)) [0..<kp]"
    and ps: "\<forall>i<kp. stoneAt ?b ?n ?p (stepFrom (row + dr, col + dc) (dr, dc) (int i))"
    and pe: "\<not> stoneAt ?b ?n ?p (stepFrom (row + dr, col + dc) (dr, dc) (int kp))"
    by blast
  from scanRun_char [OF nz', of ?b ?n ?p "row - dr" "col - dc"] obtain kn where
    neg: "scanRun ?b ?n ?p (- dr) (- dc) (row - dr) (col - dc)
            = map (\<lambda>i. stepFrom (row - dr, col - dc) (- dr, - dc) (int i)) [0..<kn]"
    and ns: "\<forall>i<kn. stoneAt ?b ?n ?p (stepFrom (row - dr, col - dc) (- dr, - dc) (int i))"
    and ne: "\<not> stoneAt ?b ?n ?p (stepFrom (row - dr, col - dc) (- dr, - dc) (int kn))"
    by blast
  have cp: "\<And>i. stepFrom (row + dr, col + dc) (dr, dc) i = stepFrom (row, col) d (i + 1)"
    by (simp add: stepFrom_def dd algebra_simps)
  have cn: "\<And>i. stepFrom (row - dr, col - dc) (- dr, - dc) i = stepFrom (row, col) d (- i - 1)"
    by (simp add: stepFrom_def dd algebra_simps)
  have lt: "lineThrough g row col d
              = rev (map (\<lambda>i. stepFrom (row, col) d (- int i - 1)) [0..<kn]) @ [(row, col)]
                @ map (\<lambda>i. stepFrom (row, col) d (int i + 1)) [0..<kp]"
    by (simp add: lineThrough_def Let_def dd pos neg) (simp add: cp cn dd)
  have line: "lineThrough g row col d
                = map (\<lambda>i. stepFrom (row, col) d (int i - int kn)) [0..<kn + 1 + kp]"
    unfolding lt
  proof (rule nth_equalityI)
    show "length (rev (map (\<lambda>i. stepFrom (row, col) d (- int i - 1)) [0..<kn]) @ [(row, col)]
                  @ map (\<lambda>i. stepFrom (row, col) d (int i + 1)) [0..<kp])
          = length (map (\<lambda>i. stepFrom (row, col) d (int i - int kn)) [0..<kn + 1 + kp])"
      by simp
  next
    fix i assume "i < length (rev (map (\<lambda>i. stepFrom (row, col) d (- int i - 1)) [0..<kn])
                    @ [(row, col)] @ map (\<lambda>i. stepFrom (row, col) d (int i + 1)) [0..<kp])"
    then have i: "i < kn + 1 + kp" by simp
    consider "i < kn" | "i = kn" | "kn < i" by linarith
    then show "(rev (map (\<lambda>i. stepFrom (row, col) d (- int i - 1)) [0..<kn]) @ [(row, col)]
                @ map (\<lambda>i. stepFrom (row, col) d (int i + 1)) [0..<kp]) ! i
               = map (\<lambda>i. stepFrom (row, col) d (int i - int kn)) [0..<kn + 1 + kp] ! i"
    proof cases
      case 1
      then have e: "- int (kn - Suc i) - 1 = int i - int kn" by linarith
      from 1 have "(rev (map (\<lambda>i. stepFrom (row, col) d (- int i - 1)) [0..<kn]) @ [(row, col)]
                @ map (\<lambda>i. stepFrom (row, col) d (int i + 1)) [0..<kp]) ! i
            = stepFrom (row, col) d (- int (kn - Suc i) - 1)"
        by (simp add: nth_append rev_nth del: upt_Suc)
      with e i show ?thesis by (simp del: upt_Suc)
    next
      case 2
      with i show ?thesis
        by (simp add: nth_append stepFrom_0 del: upt_Suc)
    next
      case 3
      then have e: "int (i - Suc kn) + 1 = int i - int kn" by linarith
      from 3 i have lt': "i - Suc kn < kp" by linarith
      from 3 i lt' have "(rev (map (\<lambda>i. stepFrom (row, col) d (- int i - 1)) [0..<kn]) @ [(row, col)]
                @ map (\<lambda>i. stepFrom (row, col) d (int i + 1)) [0..<kp]) ! i
            = stepFrom (row, col) d (int (i - Suc kn) + 1)"
        by (simp add: nth_append nth_Cons' del: upt_Suc)
      with e i show ?thesis by (simp del: upt_Suc)
    qed
  qed
  have a: "\<forall>j. 1 \<le> j \<and> j \<le> int kn \<longrightarrow> stoneAt ?b ?n ?p (stepFrom (row, col) d (- j))"
  proof (intro allI impI)
    fix j :: int assume j: "1 \<le> j \<and> j \<le> int kn"
    then have "nat (j - 1) < kn" by linarith
    with ns have "stoneAt ?b ?n ?p (stepFrom (row - dr, col - dc) (- dr, - dc) (int (nat (j - 1))))"
      by blast
    with j show "stoneAt ?b ?n ?p (stepFrom (row, col) d (- j))" by (simp add: cn)
  qed
  have b: "\<forall>j. 1 \<le> j \<and> j \<le> int kp \<longrightarrow> stoneAt ?b ?n ?p (stepFrom (row, col) d j)"
  proof (intro allI impI)
    fix j :: int assume j: "1 \<le> j \<and> j \<le> int kp"
    then have "nat (j - 1) < kp" by linarith
    with ps have "stoneAt ?b ?n ?p (stepFrom (row + dr, col + dc) (dr, dc) (int (nat (j - 1))))"
      by blast
    with j show "stoneAt ?b ?n ?p (stepFrom (row, col) d j)" by (simp add: cp)
  qed
  from ne have c: "\<not> stoneAt ?b ?n ?p (stepFrom (row, col) d (- int kn - 1))" by (simp add: cn)
  from pe have e: "\<not> stoneAt ?b ?n ?p (stepFrom (row, col) d (int kp + 1))" by (simp add: cp)
  from line a b c e show ?thesis by blast
qed

lemma checkWinDirs_char:
  "fst (checkWinDirs g row col ds) \<longleftrightarrow> (\<exists>d \<in> set ds. 5 \<le> length (lineThrough g row col d))"
  by (induction ds) (auto simp: Let_def)

lemma checkWinDirs_line:
  "fst (checkWinDirs g row col ds) \<Longrightarrow>
     \<exists>d \<in> set ds. 5 \<le> length (lineThrough g row col d)
                  \<and> winLine (snd (checkWinDirs g row col ds)) = take 5 (lineThrough g row col d)"
  by (induction ds) (auto simp: Let_def split: if_splits)




lemma placed_fields:
  "board (placed clk row col (g, t)) = setCell (board g) row col (currentPlayer g)"
  "boardSize (placed clk row col (g, t)) = boardSize g"
  by (simp_all add: placed_def)

lemma makeMove_won_winLine:
  assumes "isValidMove g row col"
    and "gameStatus (fst (snd (makeMove clk row col (g, t)))) = Won"
  shows "winLine (fst (snd (makeMove clk row col (g, t))))
           = winLine (snd (checkWin (placed clk row col (g, t)) row col))"
    and "winner (fst (snd (makeMove clk row col (g, t)))) = Some (currentPlayer g)"
    and "fst (checkWin (placed clk row col (g, t)) row col)"
proof -
  have "gameStatus (placed clk row col (g, t)) = Playing"
    using assms(1) by (simp add: placed_def isValidMove_def)
  with assms(2) have w: "fst (checkWin (placed clk row col (g, t)) row col)"
    by (simp add: makeMove_valid [OF assms(1)] Let_def split: if_splits)
  then show "winLine (fst (snd (makeMove clk row col (g, t))))
           = winLine (snd (checkWin (placed clk row col (g, t)) row col))"
    and "winner (fst (snd (makeMove clk row col (g, t)))) = Some (currentPlayer g)"
    and "fst (checkWin (placed clk row col (g, t)) row col)"
    by (simp_all add: makeMove_valid [OF assms(1)] Let_def)
qed

lemma reachable_counts:
  "reachable g \<Longrightarrow> moveCount g = int (length (moveHistory g))
                     \<and> (boardSize g = 15 \<or> boardSize g = 19)
                     \<and> (currentPlayer g = 1 \<or> currentPlayer g = 2)"
proof (induction rule: reachable.induct)
  case (fresh sz)
  show ?case using fresh_fields(7) [of sz] by (simp add: fresh_fields(4,5,6))
next
  case (move g row col clk t)
  then show ?case
    by (auto simp: makeMove_valid Let_def placed_def)
qed

lemma cellsOk_setCell:
  assumes "cellsOk b" and "v = 0 \<or> v = 1 \<or> v = 2"
  shows "cellsOk (setCell b r c v)"
proof (cases "nat r < length b")
  case True
  then have "b ! nat r \<in> set b" by simp
  with assms(1) have "\<forall>x \<in> set (b ! nat r). x = 0 \<or> x = 1 \<or> x = 2" by (simp add: cellsOk_def)
  moreover have "set ((b ! nat r)[nat c := v]) \<subseteq> insert v (set (b ! nat r))"
    by (rule set_update_subset_insert)
  ultimately have row: "\<forall>x \<in> set ((b ! nat r)[nat c := v]). x = 0 \<or> x = 1 \<or> x = 2"
    using assms(2) by blast
  have "set (b[nat r := (b ! nat r)[nat c := v]]) \<subseteq> insert ((b ! nat r)[nat c := v]) (set b)"
    by (rule set_update_subset_insert)
  with row assms(1) show ?thesis unfolding cellsOk_def setCell_def by blast
next
  case False
  with assms(1) show ?thesis by (simp add: setCell_def list_update_beyond)
qed

lemma reachable_cellsOk: "reachable g \<Longrightarrow> cellsOk (board g)"
proof (induction rule: reachable.induct)
  case (fresh sz)
  show ?case by (subst fresh_fields(8)) (simp add: cellsOk_def)
next
  case (move g row col clk t)
  from reachable_counts [OF move.hyps(1)] have "currentPlayer g = 1 \<or> currentPlayer g = 2" by simp
  then have "currentPlayer g = 0 \<or> currentPlayer g = 1 \<or> currentPlayer g = 2" by simp
  from cellsOk_setCell [OF move.IH this] show ?case
    by (simp add: makeMove_fields(1) [OF move.hyps(2)])
qed


lemma cellAt_setCell_same:
  assumes "squareBoard n b" and "0 \<le> r" "r < n" "0 \<le> c" "c < n"
  shows "cellAt (setCell b r c v) r c = v"
proof -
  from assms(1) have "int (length b) = n" by (simp add: squareBoard_def)
  with assms have r: "nat r < length b" by linarith
  then have "b ! nat r \<in> set b" by simp
  with assms(1) have "int (length (b ! nat r)) = n" by (simp add: squareBoard_def)
  with assms have "nat c < length (b ! nat r)" by linarith
  with r show ?thesis by (simp add: cellAt_def setCell_def)
qed

lemma cellAt_setCell_other:
  assumes "(r', c') \<noteq> (r, c)" and "0 \<le> r" "0 \<le> c" "0 \<le> r'" "0 \<le> c'"
  shows "cellAt (setCell b r c v) r' c' = cellAt b r' c'"
proof (cases "nat r' = nat r")
  case False
  then show ?thesis by (simp add: cellAt_def setCell_def)
next
  case True
  with assms have c: "nat c' \<noteq> nat c" by auto
  show ?thesis
  proof (cases "nat r < length b")
    case True
    with \<open>nat r' = nat r\<close> c show ?thesis by (simp add: cellAt_def setCell_def)
  next
    case False
    then show ?thesis by (simp add: cellAt_def setCell_def list_update_beyond)
  qed
qed

lemma stoneAt_setCell_same:
  assumes "squareBoard n b" and "0 \<le> r" "r < n" "0 \<le> c" "c < n"
  shows "stoneAt (setCell b r c v) n p (r, c) \<longleftrightarrow> p = v"
  using assms by (auto simp: stoneAt_def cellAt_setCell_same)

lemma stoneAt_setCell_other:
  assumes "x \<noteq> (r, c)" and "0 \<le> r" "0 \<le> c"
  shows "stoneAt (setCell b r c v) n p x \<longleftrightarrow> stoneAt b n p x"
proof (cases "0 \<le> fst x \<and> 0 \<le> snd x")
  case True
  with assms have "cellAt (setCell b r c v) (fst x) (snd x) = cellAt b (fst x) (snd x)"
    by (intro cellAt_setCell_other) auto
  then show ?thesis by (simp add: stoneAt_def)
next
  case False
  then show ?thesis by (auto simp: stoneAt_def)
qed

lemma stepFrom_stepFrom: "stepFrom (stepFrom x d i) d j = stepFrom x d (i + j)"
  by (simp add: stepFrom_def algebra_simps)

lemma stepFrom_neq:
  assumes "d \<in> set directions" and "j \<noteq> 0"
  shows "stepFrom x d j \<noteq> x"
  using assms directions_nonzero [OF assms(1)]
  by (cases x) (auto simp: stepFrom_def)

text \<open>A window of five through the played cell is found by the win check.\<close>

lemma window_found:
  assumes d: "d \<in> set directions"
    and w: "\<forall>i \<in> {0..4}. stoneAt (board g) (boardSize g) (cellAt (board g) row col) (stepFrom x d i)"
    and i0: "i0 \<in> {0..4}" "stepFrom x d i0 = (row, col)"
  shows "5 \<le> length (lineThrough g row col d)"
proof -
  let ?st = "stoneAt (board g) (boardSize g) (cellAt (board g) row col)"
  from lineThrough_char [OF d, of g row col] obtain kn kp where
    len: "lineThrough g row col d
            = map (\<lambda>i. stepFrom (row, col) d (int i - int kn)) [0..<kn + 1 + kp]"
    and ne: "\<not> ?st (stepFrom (row, col) d (- int kn - 1))"
    and pe: "\<not> ?st (stepFrom (row, col) d (int kp + 1))"
    by blast
  have at: "\<And>j. 0 \<le> i0 + j \<Longrightarrow> i0 + j \<le> 4 \<Longrightarrow> ?st (stepFrom (row, col) d j)"
    using w i0(2) [symmetric] by (simp add: stepFrom_stepFrom)
  have "i0 \<le> int kn"
  proof (rule ccontr)
    assume "\<not> i0 \<le> int kn"
    with i0(1) have "0 \<le> i0 + (- int kn - 1)" "i0 + (- int kn - 1) \<le> 4" by auto
    from at [OF this] ne show False by simp
  qed
  moreover have "4 - i0 \<le> int kp"
  proof (rule ccontr)
    assume "\<not> 4 - i0 \<le> int kp"
    with i0(1) have "0 \<le> i0 + (int kp + 1)" "i0 + (int kp + 1) \<le> 4" by auto
    from at [OF this] pe show False by simp
  qed
  ultimately show ?thesis by (simp add: len)
qed

lemma noFive_step:
  assumes nf: "noFive g" and sq: "squareBoard (boardSize g) (board g)"
    and v: "isValidMove g row col" and q: "currentPlayer g \<noteq> 0"
    and nw: "\<not> fst (checkWin (placed clk row col (g, t)) row col)"
  shows "noFive (placed clk row col (g, t))"
  unfolding noFive_def
proof (intro allI impI notI)
  fix p x d
  let ?P = "placed clk row col (g, t)"
  assume a: "p \<noteq> 0 \<and> d \<in> set directions"
    and w: "\<forall>i \<in> {0..4}. stoneAt (board ?P) (boardSize ?P) p (stepFrom x d i)"
  from v have rc: "0 \<le> row" "row < boardSize g" "0 \<le> col" "col < boardSize g"
    by (simp_all add: isValidMove_def isValidPosition_def)
  have bp: "board ?P = setCell (board g) row col (currentPlayer g)" "boardSize ?P = boardSize g"
    by (simp_all add: placed_fields)
  have here: "cellAt (board ?P) row col = currentPlayer g"
    by (simp add: bp cellAt_setCell_same [OF sq rc])
  show False
  proof (cases "\<exists>i0 \<in> {0..4}. stepFrom x d i0 = (row, col)")
    case True
    then obtain i0 where i0: "i0 \<in> {0..4}" "stepFrom x d i0 = (row, col)" by blast
    with w have "stoneAt (board ?P) (boardSize ?P) p (row, col)" by metis
    then have "p = currentPlayer g" using here by (simp add: stoneAt_def)
    with w here have "\<forall>i \<in> {0..4}. stoneAt (board ?P) (boardSize ?P) (cellAt (board ?P) row col)
                                        (stepFrom x d i)" by simp
    from window_found [OF _ this i0] a have "5 \<le> length (lineThrough ?P row col d)" by simp
    with a nw show False by (auto simp: checkWin_def checkWinDirs_char)
  next
    case False
    then have "\<forall>i \<in> {0..4}. stoneAt (board g) (boardSize g) p (stepFrom x d i)"
      using w rc by (simp add: bp stoneAt_setCell_other)
    with nf a show False unfolding noFive_def by blast
  qed
qed

lemma noFive_cong:
  "board g = board g' \<Longrightarrow> boardSize g = boardSize g' \<Longrightarrow> noFive g = noFive g'"
  by (simp add: noFive_def)

lemma noFive_fresh: "noFive (setBoardSize sz GameModel_new)"
proof -
  let ?g = "setBoardSize sz GameModel_new"
  have "cellAt (board ?g) r c = 0" if "0 \<le> r" "r < boardSize ?g" "0 \<le> c" "c < boardSize ?g" for r c
  proof -
    from that have "nat r < nat (boardSize ?g)" "nat c < nat (boardSize ?g)" by linarith+
    then show ?thesis by (subst fresh_fields(8)) (simp add: cellAt_def)
  qed
  then have "\<not> stoneAt (board ?g) (boardSize ?g) p x" if "p \<noteq> 0" for p x
    using that by (auto simp: stoneAt_def)
  then show ?thesis by (auto simp: noFive_def)
qed

lemma reachable_noFive: "reachable g \<Longrightarrow> gameStatus g = Playing \<Longrightarrow> noFive g"
proof (induction rule: reachable.induct)
  case (fresh sz)
  show ?case by (rule noFive_fresh)
next
  case (move g row col clk t)
  let ?g' = "fst (snd (makeMove clk row col (g, t)))"
  from move.hyps(2) have pl: "gameStatus g = Playing" by (simp add: isValidMove_def)
  from move.prems have nw: "\<not> fst (checkWin (placed clk row col (g, t)) row col)"
    by (simp add: makeMove_fields(5) [OF move.hyps(2)] split: if_splits)
  from reachable_stateInv [OF move.hyps(1)] have sq: "squareBoard (boardSize g) (board g)"
    by (simp add: stateInv_def)
  from reachable_counts [OF move.hyps(1)] have q: "currentPlayer g \<noteq> 0" by auto
  have "noFive (placed clk row col (g, t))"
    by (rule noFive_step [OF move.IH [OF pl] sq move.hyps(2) q nw])
  moreover have "noFive ?g' = noFive (placed clk row col (g, t))"
    by (rule noFive_cong) (simp_all add: makeMove_fields(1,2) [OF move.hyps(2)] placed_fields)
  ultimately show ?case by simp
qed


lemma take5_window:
  assumes "5 \<le> m"
  shows "take 5 (map (\<lambda>i. stepFrom x d (int i - int kn)) [0..<m])
         = windowCells (stepFrom x d (- int kn)) d"
proof -
  have "take 5 (map (\<lambda>i. stepFrom x d (int i - int kn)) [0..<m])
        = map (\<lambda>i. stepFrom x d (int i - int kn)) [0..<5]"
    using assms by (simp add: take_map take_upt del: upt_Suc)
  also have "\<dots> = windowCells (stepFrom x d (- int kn)) d"
    by (simp add: windowCells_def stepFrom_stepFrom upto_rec1 upt_conv_Cons del: upt_Suc)
  finally show ?thesis .
qed

lemma won_step:
  assumes r: "reachable g" and v: "isValidMove g row col"
    and won: "gameStatus (fst (snd (makeMove clk row col (g, t)))) = Won"
  shows "\<exists>d kn. d \<in> set directions \<and> kn \<le> (4 :: nat)
           \<and> winLine (fst (snd (makeMove clk row col (g, t))))
               = windowCells (stepFrom (row, col) d (- int kn)) d
           \<and> (\<forall>x \<in> set (windowCells (stepFrom (row, col) d (- int kn)) d).
                 stoneAt (setCell (board g) row col (currentPlayer g)) (boardSize g) (currentPlayer g) x)
           \<and> \<not> stoneAt (setCell (board g) row col (currentPlayer g)) (boardSize g) (currentPlayer g)
                   (stepFrom (row, col) d (- int kn - 1))"
proof -
  let ?P = "placed clk row col (g, t)" and ?q = "currentPlayer g"
  let ?st = "stoneAt (setCell (board g) row col ?q) (boardSize g) ?q"
  from v have rc: "0 \<le> row" "row < boardSize g" "0 \<le> col" "col < boardSize g"
    and pl: "gameStatus g = Playing"
    by (simp_all add: isValidMove_def isValidPosition_def)
  from reachable_stateInv [OF r] have sq: "squareBoard (boardSize g) (board g)"
    by (simp add: stateInv_def)
  from reachable_counts [OF r] have q: "?q \<noteq> 0" by auto
  have bp: "board ?P = setCell (board g) row col ?q" "boardSize ?P = boardSize g"
    by (simp_all add: placed_fields)
  have here: "cellAt (board ?P) row col = ?q"
    by (simp add: bp cellAt_setCell_same [OF sq rc])
  have st0: "?st (row, col)" by (simp add: stoneAt_setCell_same [OF sq rc])
  from makeMove_won_winLine [OF v won]
  have wl: "winLine (fst (snd (makeMove clk row col (g, t)))) = winLine (snd (checkWin ?P row col))"
    and cw: "fst (checkWin ?P row col)" by simp_all
  from checkWinDirs_line [OF cw [unfolded checkWin_def]] obtain d where
    d: "d \<in> set directions" and len: "5 \<le> length (lineThrough ?P row col d)"
    and tk: "winLine (snd (checkWin ?P row col)) = take 5 (lineThrough ?P row col d)"
    by (auto simp: checkWin_def)
  from lineThrough_char [OF d, of ?P row col, unfolded here, unfolded bp] obtain kn kp where
    line: "lineThrough ?P row col d
            = map (\<lambda>i. stepFrom (row, col) d (int i - int kn)) [0..<kn + 1 + kp]"
    and ns: "\<forall>j. 1 \<le> j \<and> j \<le> int kn \<longrightarrow> ?st (stepFrom (row, col) d (- j))"
    and ps: "\<forall>j. 1 \<le> j \<and> j \<le> int kp \<longrightarrow> ?st (stepFrom (row, col) d j)"
    and ne: "\<not> ?st (stepFrom (row, col) d (- int kn - 1))"
    by blast
  from len line have m: "5 \<le> kn + 1 + kp" by simp
  have kn4: "kn \<le> 4"
  proof (rule ccontr)
    assume "\<not> kn \<le> 4"
    then have k5: "5 \<le> int kn" by simp
    have "\<forall>i \<in> {0..4}. stoneAt (board g) (boardSize g) ?q
                           (stepFrom (stepFrom (row, col) d (- 5)) d i)"
    proof
      fix i :: int assume i: "i \<in> {0..4}"
      with k5 have "1 \<le> 5 - i \<and> 5 - i \<le> int kn" by auto
      with ns have "?st (stepFrom (row, col) d (- (5 - i)))" by blast
      moreover have "stepFrom (row, col) d (- (5 - i)) \<noteq> (row, col)"
        using i by (intro stepFrom_neq [OF d]) auto
      ultimately have "stoneAt (board g) (boardSize g) ?q (stepFrom (row, col) d (- (5 - i)))"
        using rc by (simp add: stoneAt_setCell_other)
      then show "stoneAt (board g) (boardSize g) ?q (stepFrom (stepFrom (row, col) d (- 5)) d i)"
        by (simp add: stepFrom_stepFrom)
    qed
    with reachable_noFive [OF r pl] q d show False unfolding noFive_def by blast
  qed
  have cells: "\<forall>x \<in> set (windowCells (stepFrom (row, col) d (- int kn)) d). ?st x"
  proof
    fix x assume "x \<in> set (windowCells (stepFrom (row, col) d (- int kn)) d)"
    then obtain i :: int where i: "0 \<le> i" "i \<le> 4" and x: "x = stepFrom (row, col) d (i - int kn)"
      by (auto simp: windowCells_def stepFrom_stepFrom add.commute)
    consider "i - int kn = 0" | "i - int kn < 0" | "0 < i - int kn" by linarith
    then show "?st x"
    proof cases
      case 1
      with st0 x show ?thesis by (simp add: stepFrom_0)
    next
      case 2
      with i have "1 \<le> int kn - i \<and> int kn - i \<le> int kn" by auto
      with ns have "?st (stepFrom (row, col) d (- (int kn - i)))" by blast
      with x show ?thesis by simp
    next
      case 3
      with i m have "1 \<le> i - int kn \<and> i - int kn \<le> int kp" by auto
      with ps x show ?thesis by blast
    qed
  qed
  have "winLine (fst (snd (makeMove clk row col (g, t))))
          = windowCells (stepFrom (row, col) d (- int kn)) d"
    unfolding wl tk line by (rule take5_window [OF m])
  with d kn4 cells ne show ?thesis by blast
qed

section \<open>Terminal states\<close>





text \<open>
  Claim C2. In every state reachable by legal moves from a fresh board, if the
  status is Won then: the winner is the player of the last move; the winning
  line has exactly five cells, all on the board and all holding the winner's
  stones; the five cells go in unit steps of one of the four directions; and
  they start at the negative end of the winner's run through the cell of the
  last move (the cell before the first one does not hold the winner's stone)
  and extend in the positive direction, so that of a run longer than five the
  cells furthest in the positive direction are dropped. The first cell is at
  most four steps before the cell of the last move.
\<close>

theorem won_line_shape:
  assumes "reachable g" and "gameStatus g = Won"
  shows "\<exists>p d kn. winner g = Some p \<and> moveHistory g \<noteq> [] \<and> m_player (last (moveHistory g)) = p
           \<and> d \<in> set directions \<and> kn \<le> (4 :: nat)
           \<and> winLine g = windowCells (stepFrom (lastMove g) d (- int kn)) d
           \<and> length (winLine g) = 5
           \<and> (\<forall>x \<in> set (winLine g). stoneAt (board g) (boardSize g) p x)
           \<and> \<not> stoneAt (board g) (boardSize g) p (stepFrom (lastMove g) d (- int kn - 1))"
  using assms
proof (cases rule: reachable.cases)
  case (fresh sz)
  with assms(2) show ?thesis by (simp add: fresh_fields(1))
next
  case (move g0 row col clk t)
  from assms(2) move(1)
  have won: "gameStatus (fst (snd (makeMove clk row col (g0, t)))) = Won" by simp
  from won_step [OF move(2,3) won] obtain d kn where
    d: "d \<in> set directions" "kn \<le> 4"
    and wl: "winLine g = windowCells (stepFrom (row, col) d (- int kn)) d"
    and cells: "\<forall>x \<in> set (windowCells (stepFrom (row, col) d (- int kn)) d).
                 stoneAt (setCell (board g0) row col (currentPlayer g0)) (boardSize g0) (currentPlayer g0) x"
    and ne: "\<not> stoneAt (setCell (board g0) row col (currentPlayer g0)) (boardSize g0) (currentPlayer g0)
                   (stepFrom (row, col) d (- int kn - 1))"
    unfolding move(1) by blast
  have f: "board g = setCell (board g0) row col (currentPlayer g0)" "boardSize g = boardSize g0"
    "lastMove g = (row, col)" "moveHistory g \<noteq> []" "m_player (last (moveHistory g)) = currentPlayer g0"
    "winner g = Some (currentPlayer g0)"
    unfolding move(1)
    by (simp_all add: makeMove_fields(1,2,4) [OF move(3)] lastMove_def
                      makeMove_won_winLine(2) [OF move(3) won])
  have l5: "length (winLine g) = 5" by (simp add: wl windowCells_def)
  show ?thesis
    using d cells ne l5 unfolding f wl [symmetric] by (intro exI [of _ "currentPlayer g0"] exI [of _ d] exI [of _ kn]) (simp add: f wl)
qed

theorem won_line_shape_witness:
  "reachable wonGame \<and> gameStatus wonGame = Won
   \<and> winLine wonGame = [(7, 7), (8, 7), (9, 7), (10, 7), (11, 7)]
   \<and> (\<exists>p d kn. winner wonGame = Some p \<and> d \<in> set directions \<and> kn \<le> (4 :: nat)
         \<and> winLine wonGame = windowCells (stepFrom (lastMove wonGame) d (- int kn)) d
         \<and> (\<forall>x \<in> set (winLine wonGame). stoneAt (board wonGame) (boardSize wonGame) p x))"
proof -
  have r: "reachable wonGame"
    unfolding wonGame_def by (rule reachable_playAll) (simp add: reachable_new)
  have w: "gameStatus wonGame = Won" by code_simp
  have l: "winLine wonGame = [(7, 7), (8, 7), (9, 7), (10, 7), (11, 7)]" by code_simp
  from won_line_shape [OF r w] r w l show ?thesis by blast
qed

section \<open>Immediate wins and blocks\<close>

lemma set_allCells: "set (allCells n) = {x. 0 \<le> fst x \<and> fst x < n \<and> 0 \<le> snd x \<and> snd x < n}"
  by (auto simp: allCells_def)

lemma findWinningScan_char:
  "findWinningScan b n p cs = (res, b') \<Longrightarrow>
     b' = b \<and>
     (case res of
        Some m \<Rightarrow> m \<in> set cs \<and> cellAt b (fst m) (snd m) = 0
                  \<and> ai_checkWin (setCell b (fst m) (snd m) p) n (fst m) (snd m) p
      | None \<Rightarrow> \<forall>m \<in> set cs. cellAt b (fst m) (snd m) = 0
                  \<longrightarrow> \<not> ai_checkWin (setCell b (fst m) (snd m) p) n (fst m) (snd m) p)"
proof (induction b n p cs arbitrary: res b' rule: findWinningScan.induct)
  case (1 b n p)
  then show ?case by simp
next
  case (2 b n p row col cs)
  show ?case
  proof (cases "cellAt b row col = 0")
    case False
    with "2.prems" have "findWinningScan b n p cs = (res, b')" by simp
    from "2.IH"(2) [OF False this] False show ?thesis
      by (auto split: option.splits)
  next
    case True
    then have u: "setCell (setCell b row col p) row col 0 = b" by (rule setCell_undo)
    show ?thesis
    proof (cases "ai_checkWin (setCell b row col p) n row col p")
      case w: True
      with True "2.prems" u show ?thesis by (auto simp: Let_def)
    next
      case w: False
      with True "2.prems" u have "findWinningScan b n p cs = (res, b')" by (simp add: Let_def)
      from "2.IH"(1) [OF True refl w, unfolded u, OF this] w True show ?thesis
        by (auto split: option.splits)
    qed
  qed
qed

lemma findWinningMove_board: "snd (findWinningMove b n p) = b"
  using findWinningScan_char [of b n p "allCells n" "fst (findWinningMove b n p)" "snd (findWinningMove b n p)"]
  by (simp add: findWinningMove_def)

lemma findWinningMove_Some:
  assumes "fst (findWinningMove b n p) = Some m"
  shows "stoneAt b n 0 m \<and> ai_checkWin (setCell b (fst m) (snd m) p) n (fst m) (snd m) p"
  using findWinningScan_char [of b n p "allCells n" "Some m" "snd (findWinningMove b n p)"] assms
  by (simp add: findWinningMove_def set_allCells stoneAt_def) (metis prod.collapse)

lemma findWinningMove_None:
  assumes "fst (findWinningMove b n p) = None" and "stoneAt b n 0 m"
  shows "\<not> ai_checkWin (setCell b (fst m) (snd m) p) n (fst m) (snd m) p"
  using findWinningScan_char [of b n p "allCells n" None "snd (findWinningMove b n p)"] assms
  by (simp add: findWinningMove_def set_allCells stoneAt_def) (metis prod.collapse)

lemma addRandomness_singleton: "addRandomness ai u1 u2 m [m] = m"
  by (simp add: addRandomness_def)

lemma getBoardCopy_board: "getBoardCopy g = board g"
  by (simp add: getBoardCopy_def)

lemma getBestMove_cases:
  "getBestMove ai clk u1 u2 (g, t) =
     (case fst (findWinningMove (board g) (boardSize g) (ai_player ai)) of
        Some m \<Rightarrow> (Some m, g, t)
      | None \<Rightarrow>
         (case fst (findWinningMove (board g) (boardSize g) (ai_opponent ai)) of
            Some m \<Rightarrow> (Some m, g, t)
          | None \<Rightarrow>
             (let r = minimax ai clk (s_depth (ai_currentSettings ai)) True (g, t) NegInf PosInf
              in case snd (fst r) of
                   Some m \<Rightarrow>
                     (Some (addRandomness ai u1 u2 m (getRelevantEmptyCells (fst (snd r)) 2)), snd r)
                 | None \<Rightarrow> (getRandomCenterMove (fst (snd r)) u1, snd r))))"
proof -
  obtain w b1 where f1: "findWinningMove (board g) (boardSize g) (ai_player ai) = (w, b1)"
    by (cases "findWinningMove (board g) (boardSize g) (ai_player ai)")
  from findWinningMove_board [of "board g" "boardSize g" "ai_player ai"] f1
  have b1: "b1 = board g" by simp
  obtain w2 b2 where f2: "findWinningMove (board g) (boardSize g) (ai_opponent ai) = (w2, b2)"
    by (cases "findWinningMove (board g) (boardSize g) (ai_opponent ai)")
  show ?thesis
    by (simp add: getBestMove_def getBoardCopy_board f1 b1 f2 Let_def addRandomness_singleton
             split: option.splits prod.splits)
qed

lemma getBestMove_search:
  assumes "fst (findWinningMove (board g) (boardSize g) (ai_player ai)) = None"
    and "fst (findWinningMove (board g) (boardSize g) (ai_opponent ai)) = None"
  shows "getBestMove ai clk u1 u2 (g, t) =
           (let r = minimax ai clk (s_depth (ai_currentSettings ai)) True (g, t) NegInf PosInf
            in case snd (fst r) of
                 Some m \<Rightarrow>
                   (Some (addRandomness ai u1 u2 m (getRelevantEmptyCells (fst (snd r)) 2)), snd r)
               | None \<Rightarrow> (getRandomCenterMove (fst (snd r)) u1, snd r))"
  unfolding getBestMove_cases assms by simp


lemma getBestMove_win:
  assumes "fst (findWinningMove (board g) (boardSize g) (ai_player ai)) = Some m"
  shows "getBestMove ai clk u1 u2 (g, t) = (Some m, g, t)"
  unfolding getBestMove_cases assms by simp

lemma getBestMove_block:
  assumes "fst (findWinningMove (board g) (boardSize g) (ai_player ai)) = None"
    and "fst (findWinningMove (board g) (boardSize g) (ai_opponent ai)) = Some m"
  shows "getBestMove ai clk u1 u2 (g, t) = (Some m, g, t)"
  unfolding getBestMove_cases assms by simp

text \<open>
  Claim C9. \<open>addRandomness\<close> with a one-element list of alternatives returns
  the move it was given, whatever the two random draws are. So, on a square
  board, when the scan
  for an immediate win finds a cell, \<open>getBestMove\<close> returns exactly that cell;
  and when it finds none and the scan for the opponent's immediate win finds
  a cell, \<open>getBestMove\<close> returns exactly that cell: for every difficulty and
  every value of the draws, leaving the rules engine untouched.
\<close>

theorem immediate_moves_not_randomised:
  assumes "squareBoard (boardSize g) (board g)"
  shows "addRandomness ai u1 u2 m [m] = m
         \<and> (fst (findWinningMove (getBoardCopy g) (boardSize g) (ai_player ai)) = Some m
              \<longrightarrow> getBestMove ai clk u1 u2 (g, t) = (Some m, g, t))
         \<and> (fst (findWinningMove (getBoardCopy g) (boardSize g) (ai_player ai)) = None
              \<and> fst (findWinningMove (getBoardCopy g) (boardSize g) (ai_opponent ai)) = Some m
              \<longrightarrow> getBestMove ai clk u1 u2 (g, t) = (Some m, g, t))"
  by (simp add: addRandomness_singleton getBoardCopy_board getBestMove_win getBestMove_block)

theorem immediate_moves_not_randomised_witness:
  "squareBoard (boardSize threatGame) (board threatGame)
   \<and> fst (findWinningMove (getBoardCopy threatGame) (boardSize threatGame) 1) = Some (6, 7)
   \<and> fst (getBestMove ((AIPlayer_new Easy)\<lparr>ai_player := 1, ai_opponent := 2\<rparr>) (\<lambda>k. 0) 0 (9 / 10)
             (threatGame, 7)) = Some (6, 7)
   \<and> fst (findWinningMove (getBoardCopy threatGame) (boardSize threatGame) 2) = None
   \<and> fst (getBestMove (AIPlayer_new Easy) (\<lambda>k. 0) 0 (9 / 10) (threatGame, 7)) = Some (6, 7)"
proof -
  have sq: "squareBoard (boardSize threatGame) (board threatGame)" by code_simp
  have w: "fst (findWinningMove (getBoardCopy threatGame) (boardSize threatGame) 1) = Some (6, 7)"
    by code_simp
  have n: "fst (findWinningMove (getBoardCopy threatGame) (boardSize threatGame) 2) = None"
    by code_simp
  have p: "ai_player (AIPlayer_new Easy) = 2" "ai_opponent (AIPlayer_new Easy) = 1"
    by (simp_all add: AIPlayer_new_def)
  from immediate_moves_not_randomised
         [OF sq, of "(AIPlayer_new Easy)\<lparr>ai_player := 1, ai_opponent := 2\<rparr>" 0 "9 / 10" "(6, 7)" "\<lambda>k. 0" 7]
       immediate_moves_not_randomised [OF sq, of "AIPlayer_new Easy" 0 "9 / 10" "(6, 7)" "\<lambda>k. 0" 7]
       sq w n p
  show ?thesis by simp
qed

lemma ai_checkWinDirs_char:
  "ai_checkWinDirs b n row col p ds \<longleftrightarrow>
     (\<exists>d \<in> set ds. 5 \<le> 1 + countRun b n p (fst d) (snd d) (row + fst d) (col + snd d)
                          + countRun b n p (- fst d) (- snd d) (row - fst d) (col - snd d))"
  by (induction ds) (auto simp: Let_def)

text \<open>The two win checks agree when the cell holds the player's stone.\<close>

lemma ai_checkWin_checkWin:
  assumes "cellAt (board g) row col = p"
  shows "ai_checkWin (board g) (boardSize g) row col p \<longleftrightarrow> fst (checkWin g row col)"
proof -
  have "\<And>d. 1 + countRun (board g) (boardSize g) p (fst d) (snd d) (row + fst d) (col + snd d)
              + countRun (board g) (boardSize g) p (- fst d) (- snd d) (row - fst d) (col - snd d)
            = int (length (lineThrough g row col d))"
    by (simp add: countRun_def lineThrough_def Let_def assms)
  then show ?thesis
    by (simp add: ai_checkWin_def ai_checkWinDirs_char checkWin_def checkWinDirs_char)
qed

lemma line_five_through:
  assumes d: "d \<in> set directions" and len: "5 \<le> length (lineThrough g row col d)"
    and here: "stoneAt (board g) (boardSize g) p (row, col)"
  shows "fiveThrough (board g) (boardSize g) p (row, col)"
proof -
  let ?st = "stoneAt (board g) (boardSize g) p"
  from here have p: "cellAt (board g) row col = p" by (simp add: stoneAt_def)
  from lineThrough_char [OF d, of g row col, unfolded p] obtain kn kp where
    line: "lineThrough g row col d
            = map (\<lambda>i. stepFrom (row, col) d (int i - int kn)) [0..<kn + 1 + kp]"
    and ns: "\<forall>j. 1 \<le> j \<and> j \<le> int kn \<longrightarrow> ?st (stepFrom (row, col) d (- j))"
    and ps: "\<forall>j. 1 \<le> j \<and> j \<le> int kp \<longrightarrow> ?st (stepFrom (row, col) d j)"
    by blast
  from len line have m: "5 \<le> kn + 1 + kp" by simp
  define k where "k = min (int kn) 4"
  have k: "k \<in> {0..4}" "k \<le> int kn" "4 - k \<le> int kp" using m by (auto simp: k_def)
  have "\<forall>i \<in> {0..4}. ?st (stepFrom (row, col) d (i - k))"
  proof
    fix i :: int assume i: "i \<in> {0..4}"
    consider "i - k = 0" | "i - k < 0" | "0 < i - k" by linarith
    then show "?st (stepFrom (row, col) d (i - k))"
    proof cases
      case 1
      with here show ?thesis by (simp add: stepFrom_0)
    next
      case 2
      with i k have "1 \<le> k - i \<and> k - i \<le> int kn" by auto
      with ns have "?st (stepFrom (row, col) d (- (k - i)))" by blast
      then show ?thesis by simp
    next
      case 3
      with i k have "1 \<le> i - k \<and> i - k \<le> int kp" by auto
      with ps show ?thesis by blast
    qed
  qed
  with d k(1) show ?thesis unfolding fiveThrough_def by blast
qed

lemma ai_checkWin_five:
  assumes sq: "squareBoard n b" and m: "0 \<le> row" "row < n" "0 \<le> col" "col < n"
    and w: "ai_checkWin (setCell b row col p) n row col p"
  shows "fiveThrough (setCell b row col p) n p (row, col)"
proof -
  let ?g = "\<lparr>boardSize = n, board = setCell b row col p, currentPlayer = 0, gameStatus = Playing,
              winner = None, winLine = [], moveHistory = [], moveCount = 0, startTime = None\<rparr>"
  have here: "stoneAt (board ?g) (boardSize ?g) p (row, col)"
    using stoneAt_setCell_same [OF sq m] by simp
  then have "cellAt (board ?g) row col = p" by (simp add: stoneAt_def)
  from ai_checkWin_checkWin [OF this] w have "fst (checkWin ?g row col)" by simp
  then obtain d where "d \<in> set directions" "5 \<le> length (lineThrough ?g row col d)"
    by (auto simp: checkWin_def checkWinDirs_char)
  from line_five_through [OF this here] show ?thesis by simp
qed

lemma stepFrom_inj:
  assumes "d \<in> set directions" and "i \<noteq> j"
  shows "stepFrom x d i \<noteq> stepFrom x d j"
  using assms directions_nonzero [OF assms(1)] by (auto simp: stepFrom_def)

lemma openFour_win:
  assumes sq: "squareBoard n b" and d: "d \<in> set directions"
    and o: "openFourAt b n p s d"
  shows "stoneAt b n 0 (stepFrom s d 4)
         \<and> ai_checkWin (setCell b (fst (stepFrom s d 4)) (snd (stepFrom s d 4)) p) n
              (fst (stepFrom s d 4)) (snd (stepFrom s d 4)) p"
proof -
  obtain row col where e: "stepFrom s d 4 = (row, col)" by (cases "stepFrom s d 4")
  from o have emp: "stoneAt b n 0 (row, col)" by (simp add: openFourAt_def e)
  then have m: "0 \<le> row" "row < n" "0 \<le> col" "col < n" by (simp_all add: stoneAt_def)
  let ?g = "\<lparr>boardSize = n, board = setCell b row col p, currentPlayer = 0, gameStatus = Playing,
              winner = None, winLine = [], moveHistory = [], moveCount = 0, startTime = None\<rparr>"
  have here: "cellAt (board ?g) row col = p"
    by (simp add: cellAt_setCell_same [OF sq m])
  have "\<forall>i \<in> {0..4}. stoneAt (board ?g) (boardSize ?g) (cellAt (board ?g) row col) (stepFrom s d i)"
  proof
    fix i :: int assume i: "i \<in> {0..4}"
    show "stoneAt (board ?g) (boardSize ?g) (cellAt (board ?g) row col) (stepFrom s d i)"
    proof (cases "i = 4")
      case True
      then show ?thesis
        using stoneAt_setCell_same [OF sq m, of p p] cellAt_setCell_same [OF sq m, of p]
        by (simp add: e)
    next
      case False
      with i have "i \<in> {0..3}" by auto
      with o have "stoneAt b n p (stepFrom s d i)" by (simp add: openFourAt_def)
      moreover from stepFrom_inj [OF d False, of s] have "stepFrom s d i \<noteq> (row, col)"
        by (simp add: e)
      ultimately show ?thesis using m unfolding here by (simp add: stoneAt_setCell_other)
    qed
  qed
  from window_found [OF d this _ e] have "5 \<le> length (lineThrough ?g row col d)" by simp
  with d have "fst (checkWin ?g row col)" by (auto simp: checkWin_def checkWinDirs_char)
  with ai_checkWin_checkWin [OF here] have "ai_checkWin (setCell b row col p) n row col p" by simp
  with emp show ?thesis by (simp add: e)
qed

text \<open>
  Claim C7. On every square board with an open four of the engine player (four
  of its stones in a row in one of the four directions, with an empty cell of
  the board at either end), \<open>getBestMove\<close> returns an empty cell such that the
  engine player's stone there stands in a window of five of its stones: for
  every difficulty (hence every search depth), every clock and every random
  draw, and without touching the rules engine. Nothing is needed of the
  opponent's threats: the scan for the engine's own win comes first.
\<close>

theorem open_four_completed:
  assumes sq: "squareBoard (boardSize g) (board g)" and d: "d \<in> set directions"
    and o: "openFourAt (board g) (boardSize g) (ai_player ai) s d"
  shows "\<exists>m. getBestMove ai clk u1 u2 (g, t) = (Some m, g, t)
            \<and> stoneAt (board g) (boardSize g) 0 m
            \<and> fiveThrough (setCell (board g) (fst m) (snd m) (ai_player ai)) (boardSize g)
                 (ai_player ai) m"
proof -
  let ?b = "board g" and ?n = "boardSize g" and ?p = "ai_player ai"
  from openFour_win [OF sq d o] have e: "stoneAt ?b ?n 0 (stepFrom s d 4)"
    and w: "ai_checkWin (setCell ?b (fst (stepFrom s d 4)) (snd (stepFrom s d 4)) ?p) ?n
              (fst (stepFrom s d 4)) (snd (stepFrom s d 4)) ?p" by simp_all
  have "fst (findWinningMove ?b ?n ?p) \<noteq> None"
    using findWinningMove_None [OF _ e, of ?p] w by blast
  then obtain m where m: "fst (findWinningMove ?b ?n ?p) = Some m" by blast
  from findWinningMove_Some [OF m] have em: "stoneAt ?b ?n 0 m"
    and wm: "ai_checkWin (setCell ?b (fst m) (snd m) ?p) ?n (fst m) (snd m) ?p" by simp_all
  from em have mb: "0 \<le> fst m" "fst m < ?n" "0 \<le> snd m" "snd m < ?n" by (simp_all add: stoneAt_def)
  from ai_checkWin_five [OF sq mb wm]
  have five: "fiveThrough (setCell ?b (fst m) (snd m) ?p) ?n ?p m" by simp
  from m have "getBestMove ai clk u1 u2 (g, t) = (Some m, g, t)"
    by (rule getBestMove_win)
  with em five show ?thesis by blast
qed


theorem open_four_completed_witness:
  "squareBoard (boardSize threatGame) (board threatGame)
   \<and> (1, 0) \<in> set directions
   \<and> openFourAt (board threatGame) (boardSize threatGame) 1 (7, 7) (1, 0)
   \<and> (\<exists>m. getBestMove ((AIPlayer_new Hard)\<lparr>ai_player := 1, ai_opponent := 2\<rparr>) (\<lambda>k. 0) 0 (9 / 10)
               (threatGame, 7) = (Some m, threatGame, 7)
          \<and> stoneAt (board threatGame) (boardSize threatGame) 0 m
          \<and> fiveThrough (setCell (board threatGame) (fst m) (snd m) 1) (boardSize threatGame) 1 m)"
proof -
  let ?ai = "(AIPlayer_new Hard)\<lparr>ai_player := 1, ai_opponent := 2\<rparr>"
  have sq: "squareBoard (boardSize threatGame) (board threatGame)" by code_simp
  have d: "(1, 0) \<in> set directions" by (simp add: directions_def)
  have o: "openFourAt (board threatGame) (boardSize threatGame) (ai_player ?ai) (7, 7) (1, 0)"
    by code_simp
  from open_four_completed [OF sq d o, of "\<lambda>k. 0" 0 "9 / 10" 7] sq d o show ?thesis by simp
qed

section \<open>The search leaves the rules engine as it found it\<close>

lemma sameButStartTime_refl: "sameButStartTime g g"
  by (simp add: sameButStartTime_def)

lemma sameButStartTime_trans:
  "sameButStartTime g g' \<Longrightarrow> sameButStartTime g' g'' \<Longrightarrow> sameButStartTime g g''"
  unfolding sameButStartTime_def
  by (metis (no_types, lifting) GameModel.surjective GameModel.update_convs(9))

lemma sameButStartTime_eq: "sameButStartTime g g' \<longleftrightarrow> g' = g\<lparr>startTime := startTime g'\<rparr>"
  unfolding sameButStartTime_def
  by (metis (no_types, lifting) GameModel.surjective GameModel.update_convs(9) GameModel.select_convs(9))

lemma sameButStartTime_update: "sameButStartTime g (g\<lparr>startTime := x\<rparr>)"
  by (simp add: sameButStartTime_def)

lemma stateInv_startTime: "stateInv (g\<lparr>startTime := x\<rparr>) = stateInv g"
  by (simp add: stateInv_def)

lemma stateInv_currentPlayer: "stateInv (g\<lparr>currentPlayer := x\<rparr>) = stateInv g"
  by (simp add: stateInv_def)

lemma undoMove_startTime:
  "undoMove (g\<lparr>startTime := x\<rparr>) = (fst (undoMove g), (snd (undoMove g))\<lparr>startTime := x\<rparr>)"
  by (simp add: undoMove_def Let_def)

lemma addCell_inv: "\<forall>m \<in> set s. P m \<Longrightarrow> P x \<Longrightarrow> \<forall>m \<in> set (addCell s x). P m"
  by (simp add: addCell_def)

lemma addAround_inv:
  assumes "\<forall>m \<in> set s. stoneAt (board g) (boardSize g) 0 m"
  shows "\<forall>m \<in> set (addAround g radius row col s). stoneAt (board g) (boardSize g) 0 m"
  unfolding addAround_def
proof (rule fold_invariant [where Q = "\<lambda>r. 0 \<le> r \<and> r < boardSize g"
                             and P = "\<lambda>s. \<forall>m \<in> set s. stoneAt (board g) (boardSize g) 0 m"])
  show "\<And>x. x \<in> set [max 0 (row - radius)..min (boardSize g - 1) (row + radius)]
          \<Longrightarrow> 0 \<le> x \<and> x < boardSize g" by auto
  show "\<forall>m \<in> set s. stoneAt (board g) (boardSize g) 0 m" by (rule assms)
next
  fix r s
  assume r: "0 \<le> r \<and> r < boardSize g" and s: "\<forall>m \<in> set s. stoneAt (board g) (boardSize g) 0 m"
  show "\<forall>m \<in> set (fold (\<lambda>c s. if cellAt (board g) r c = 0 then addCell s (r, c) else s)
                      [max 0 (col - radius)..min (boardSize g - 1) (col + radius)] s).
          stoneAt (board g) (boardSize g) 0 m"
  proof (rule fold_invariant [where Q = "\<lambda>c. 0 \<le> c \<and> c < boardSize g"
                             and P = "\<lambda>s. \<forall>m \<in> set s. stoneAt (board g) (boardSize g) 0 m"])
    show "\<And>x. x \<in> set [max 0 (col - radius)..min (boardSize g - 1) (col + radius)]
          \<Longrightarrow> 0 \<le> x \<and> x < boardSize g" by auto
    show "\<forall>m \<in> set s. stoneAt (board g) (boardSize g) 0 m" by (rule s)
  next
    fix c s
    assume c: "0 \<le> c \<and> c < boardSize g" and s: "\<forall>m \<in> set s. stoneAt (board g) (boardSize g) 0 m"
    show "\<forall>m \<in> set (if cellAt (board g) r c = 0 then addCell s (r, c) else s).
            stoneAt (board g) (boardSize g) 0 m"
      using r c s by (auto intro!: addCell_inv [rule_format] simp: stoneAt_def addCell_def)
  qed
qed

lemma getRelevantEmptyCells_empty:
  "\<forall>m \<in> set (getRelevantEmptyCells g radius). stoneAt (board g) (boardSize g) 0 m"
proof -
  let ?P = "\<lambda>s. \<forall>m \<in> set s. stoneAt (board g) (boardSize g) 0 m"
  let ?rel = "fold (\<lambda>(row, col) s. if cellAt (board g) row col \<noteq> 0
                                  then addAround g radius row col s else s)
                 (allCells (boardSize g)) []"
  have rel: "?P ?rel"
    by (rule fold_invariant [where Q = "\<lambda>x. True" and P = ?P])
       (auto simp: addAround_inv split: prod.splits)
  have cen: "?P (fold (\<lambda>r s. fold (\<lambda>c s. if isValidPosition g r c \<and> cellAt (board g) r c = 0
                                         then addCell s (r, c) else s) cs s) rs ?rel)" for rs cs
  proof (rule fold_invariant [where Q = "\<lambda>x. True" and P = ?P])
    show "?P ?rel" by (rule rel)
  next
    fix r s assume s: "?P s"
    show "?P (fold (\<lambda>c s. if isValidPosition g r c \<and> cellAt (board g) r c = 0
                           then addCell s (r, c) else s) cs s)"
      by (rule fold_invariant [where Q = "\<lambda>x. True" and P = ?P])
         (use s in \<open>auto simp: addCell_def stoneAt_def isValidPosition_def\<close>)
  qed simp
  show ?thesis
    unfolding getRelevantEmptyCells_def Let_def using rel cen by (auto simp del: set_upto)
qed

lemma getRelevantEmptyCells_cong:
  assumes "board g = board g'" and "boardSize g = boardSize g'"
  shows "getRelevantEmptyCells g radius = getRelevantEmptyCells g' radius"
proof -
  have a: "addAround g = addAround g'"
    by (intro ext) (simp add: addAround_def assms)
  have v: "isValidPosition g = isValidPosition g'"
    by (intro ext) (simp add: isValidPosition_def assms)
  show ?thesis
    unfolding getRelevantEmptyCells_def a v assms ..
qed


lemma trial_step:
  assumes rs: "restoring rec" and inv: "stateInv g" and pl: "gameStatus g = Playing"
    and e: "stoneAt (board g) (boardSize g) 0 (row, col)"
    and mk: "makeMove clk row col (g\<lparr>currentPlayer := p\<rparr>, t) = (ok, g2, t2)"
    and rc: "rec (g2, t2) alpha beta = (result, g3, t3)"
    and un: "undoMove g3 = (ok', g4)"
  shows "g4\<lparr>currentPlayer := currentPlayer g\<rparr> = g\<lparr>startTime := startTime g3\<rparr>"
proof -
  let ?g1 = "g\<lparr>currentPlayer := p\<rparr>"
  from e pl have v: "isValidMove ?g1 row col"
    by (simp add: isValidMove_def isValidPosition_def stoneAt_def)
  from inv pl have w: "winner ?g1 = None" and l: "winLine ?g1 = []" and i1: "stateInv ?g1"
    by (simp_all add: stateInv_def)
  from mk have g2: "g2 = fst (snd (makeMove clk row col (?g1, t)))" by simp
  from stateInv_makeMove [OF i1, of clk row col t] have "stateInv g2" by (simp add: g2)
  with rs have "sameButStartTime g2 (fst (snd (rec (g2, t2) alpha beta)))"
    unfolding restoring_def by blast
  with rc have "sameButStartTime g2 g3" by simp
  then have g3: "g3 = g2\<lparr>startTime := startTime g3\<rparr>" by (simp add: sameButStartTime_eq)
  from undo_make [OF v w l, of clk t]
  obtain x where u2: "undoMove g2 = (True, ?g1\<lparr>startTime := x\<rparr>)" by (simp add: g2)
  have "undoMove g3 = (True, ?g1\<lparr>startTime := startTime g3\<rparr>)"
    by (subst g3) (simp add: undoMove_startTime u2)
  with un have "g4 = ?g1\<lparr>startTime := startTime g3\<rparr>" by simp
  then show ?thesis by (cases g) simp
qed

lemma maxLoop_restores:
  assumes rs: "restoring rec"
  shows "stateInv g \<Longrightarrow> gameStatus g = Playing
         \<Longrightarrow> \<forall>m \<in> set ms. stoneAt (board g) (boardSize g) 0 m
         \<Longrightarrow> sameButStartTime g (fst (snd (maxLoop rec ai clk ms alpha beta maxScore bestMove (g, t))))"
proof (induction ms arbitrary: alpha beta maxScore bestMove g t)
  case Nil
  show ?case by (simp add: sameButStartTime_refl)
next
  case (Cons m ms)
  obtain row col where m: "m = (row, col)" by (cases m)
  obtain ok g2 t2 where mk: "makeMove clk row col (g\<lparr>currentPlayer := ai_player ai\<rparr>, t) = (ok, g2, t2)"
    by (cases "makeMove clk row col (g\<lparr>currentPlayer := ai_player ai\<rparr>, t)") auto
  obtain result g3 t3 where rc: "rec (g2, t2) alpha beta = (result, g3, t3)"
    by (cases "rec (g2, t2) alpha beta") auto
  obtain ok' g4 where un: "undoMove g3 = (ok', g4)" by (cases "undoMove g3") auto
  from Cons.prems(3) m have e: "stoneAt (board g) (boardSize g) 0 (row, col)" by simp
  let ?g5 = "g\<lparr>startTime := startTime g3\<rparr>"
  have g5: "g4\<lparr>currentPlayer := currentPlayer g\<rparr> = ?g5"
    by (rule trial_step [OF rs Cons.prems(1,2) e mk rc un])
  have s5: "sameButStartTime g ?g5" by (rule sameButStartTime_update)
  have i5: "stateInv ?g5" "gameStatus ?g5 = Playing"
    "\<forall>m \<in> set ms. stoneAt (board ?g5) (boardSize ?g5) 0 m"
    using Cons.prems by (simp_all add: stateInv_startTime)
  show ?case
  proof (cases "score_le beta (score_max alpha (fst result))")
    case True
    then show ?thesis using s5 by (simp add: m mk rc un g5 Let_def split: prod.splits)
  next
    case False
    have "sameButStartTime ?g5 (fst (snd (maxLoop rec ai clk ms (score_max alpha (fst result)) beta
              (if score_less maxScore (fst result) then fst result else maxScore)
              (if score_less maxScore (fst result) then Some (row, col) else bestMove) (?g5, t3))))"
      by (rule Cons.IH [OF i5])
    with s5 have "sameButStartTime g (fst (snd (maxLoop rec ai clk ms (score_max alpha (fst result)) beta
              (if score_less maxScore (fst result) then fst result else maxScore)
              (if score_less maxScore (fst result) then Some (row, col) else bestMove) (?g5, t3))))"
      by (rule sameButStartTime_trans)
    with False show ?thesis by (auto simp: m mk rc un g5 Let_def split: prod.splits)
  qed
qed

lemma minLoop_restores:
  assumes rs: "restoring rec"
  shows "stateInv g \<Longrightarrow> gameStatus g = Playing
         \<Longrightarrow> \<forall>m \<in> set ms. stoneAt (board g) (boardSize g) 0 m
         \<Longrightarrow> sameButStartTime g (fst (snd (minLoop rec ai clk ms alpha beta minScore bestMove (g, t))))"
proof (induction ms arbitrary: alpha beta minScore bestMove g t)
  case Nil
  show ?case by (simp add: sameButStartTime_refl)
next
  case (Cons m ms)
  obtain row col where m: "m = (row, col)" by (cases m)
  obtain ok g2 t2 where mk: "makeMove clk row col (g\<lparr>currentPlayer := ai_opponent ai\<rparr>, t) = (ok, g2, t2)"
    by (cases "makeMove clk row col (g\<lparr>currentPlayer := ai_opponent ai\<rparr>, t)") auto
  obtain result g3 t3 where rc: "rec (g2, t2) alpha beta = (result, g3, t3)"
    by (cases "rec (g2, t2) alpha beta") auto
  obtain ok' g4 where un: "undoMove g3 = (ok', g4)" by (cases "undoMove g3") auto
  from Cons.prems(3) m have e: "stoneAt (board g) (boardSize g) 0 (row, col)" by simp
  let ?g5 = "g\<lparr>startTime := startTime g3\<rparr>"
  have g5: "g4\<lparr>currentPlayer := currentPlayer g\<rparr> = ?g5"
    by (rule trial_step [OF rs Cons.prems(1,2) e mk rc un])
  have s5: "sameButStartTime g ?g5" by (rule sameButStartTime_update)
  have i5: "stateInv ?g5" "gameStatus ?g5 = Playing"
    "\<forall>m \<in> set ms. stoneAt (board ?g5) (boardSize ?g5) 0 m"
    using Cons.prems by (simp_all add: stateInv_startTime)
  show ?case
  proof (cases "score_le (score_min beta (fst result)) alpha")
    case True
    then show ?thesis using s5 by (simp add: m mk rc un g5 Let_def split: prod.splits)
  next
    case False
    have "sameButStartTime ?g5 (fst (snd (minLoop rec ai clk ms alpha (score_min beta (fst result))
              (if score_less (fst result) minScore then fst result else minScore)
              (if score_less (fst result) minScore then Some (row, col) else bestMove) (?g5, t3))))"
      by (rule Cons.IH [OF i5])
    with s5 have "sameButStartTime g (fst (snd (minLoop rec ai clk ms alpha (score_min beta (fst result))
              (if score_less (fst result) minScore then fst result else minScore)
              (if score_less (fst result) minScore then Some (row, col) else bestMove) (?g5, t3))))"
      by (rule sameButStartTime_trans)
    with False show ?thesis by (auto simp: m mk rc un g5 Let_def split: prod.splits)
  qed
qed


lemma minimax_restores_aux:
  "\<forall>maximizing g t alpha beta. stateInv g \<longrightarrow>
      sameButStartTime g (fst (snd (minimax ai clk d maximizing (g, t) alpha beta)))"
proof (induction d)
  case 0
  show ?case by (simp add: sameButStartTime_refl)
next
  case (Suc d)
  have r: "restoring (minimax ai clk d mx)" for mx
    using Suc unfolding restoring_def by blast
  show ?case
  proof (intro allI impI)
    fix maximizing g t alpha beta
    assume inv: "stateInv g"
    show "sameButStartTime g (fst (snd (minimax ai clk (Suc d) maximizing (g, t) alpha beta)))"
    proof (cases "gameStatus g = Playing")
      case False
      then show ?thesis by (simp add: sameButStartTime_refl)
    next
      case True
      note e = getRelevantEmptyCells_empty [of g 2]
      from True show ?thesis
        using maxLoop_restores [OF r inv True e] minLoop_restores [OF r inv True e]
        by (simp add: Let_def)
    qed
  qed
qed

lemma minimax_restores:
  "stateInv g \<Longrightarrow> sameButStartTime g (fst (snd (minimax ai clk d maximizing (g, t) alpha beta)))"
  using minimax_restores_aux by blast

lemma getBestMove_restores:
  assumes "stateInv g"
  shows "sameButStartTime g (fst (snd (getBestMove ai clk u1 u2 (g, t))))"
  using minimax_restores [OF assms, of ai clk "s_depth (ai_currentSettings ai)" True t NegInf PosInf]
  by (simp add: getBestMove_cases Let_def sameButStartTime_refl split: option.splits)

lemma sameButStartTime_fields:
  assumes "sameButStartTime g g'"
  shows "board g' = board g \<and> moveHistory g' = moveHistory g \<and> moveCount g' = moveCount g
         \<and> currentPlayer g' = currentPlayer g \<and> gameStatus g' = gameStatus g
         \<and> winner g' = winner g \<and> winLine g' = winLine g \<and> boardSize g' = boardSize g"
proof -
  from assms have "g' = g\<lparr>startTime := startTime g'\<rparr>" by (simp add: sameButStartTime_eq)
  then show ?thesis by (metis GameModel.select_convs(1-8) GameModel.surjective GameModel.update_convs(9))
qed

text \<open>
  Claim C4. For every state with a square board in which a game in progress
  has no winner and no winning line recorded (every state reachable by legal
  moves is one, by \<open>reachable_stateInv\<close>), when \<open>minimax\<close> returns, at any depth,
  for either side and any window, and when \<open>getBestMove\<close> returns, the rules
  engine has the board, move history, move count, current player, status,
  winner and winning line it had before the call.
\<close>

theorem search_restores_engine:
  assumes "stateInv g"
    and "minimax ai clk d maximizing (g, t) alpha beta = (result, g', t')"
    and "getBestMove ai clk u1 u2 (g, t) = (mv, g'', t'')"
  shows "board g' = board g \<and> moveHistory g' = moveHistory g \<and> moveCount g' = moveCount g
         \<and> currentPlayer g' = currentPlayer g \<and> gameStatus g' = gameStatus g
         \<and> winner g' = winner g \<and> winLine g' = winLine g \<and> boardSize g' = boardSize g
         \<and> board g'' = board g \<and> moveHistory g'' = moveHistory g \<and> moveCount g'' = moveCount g
         \<and> currentPlayer g'' = currentPlayer g \<and> gameStatus g'' = gameStatus g
         \<and> winner g'' = winner g \<and> winLine g'' = winLine g \<and> boardSize g'' = boardSize g"
  using sameButStartTime_fields [OF minimax_restores [OF assms(1), of ai clk d maximizing t alpha beta]]
        sameButStartTime_fields [OF getBestMove_restores [OF assms(1), of ai clk u1 u2 t]]
        assms(2,3)
  by simp


theorem search_restores_engine_witness:
  "stateInv GameModel_new
   \<and> (let g' = fst (snd (minimax (AIPlayer_new Medium) (\<lambda>k. int k) 3 True (GameModel_new, 0) NegInf PosInf));
           g'' = fst (snd (getBestMove (AIPlayer_new Medium) (\<lambda>k. int k) (1 / 2) (1 / 2) (GameModel_new, 0)))
       in board g' = board GameModel_new \<and> moveHistory g' = [] \<and> moveCount g' = 0
          \<and> currentPlayer g' = 1 \<and> gameStatus g' = Playing \<and> winner g' = None \<and> winLine g' = []
          \<and> board g'' = board GameModel_new \<and> moveHistory g'' = [] \<and> moveCount g'' = 0
          \<and> currentPlayer g'' = 1 \<and> gameStatus g'' = Playing \<and> winner g'' = None \<and> winLine g'' = [])"
proof -
  have i: "stateInv GameModel_new" using stateInv_fresh [of 0] by (simp add: setBoardSize_def)
  have f: "currentPlayer GameModel_new = 1" "moveCount GameModel_new = 0"
    "gameStatus GameModel_new = Playing" "winner GameModel_new = None"
    "winLine GameModel_new = []" "moveHistory GameModel_new = []"
    by (simp_all add: GameModel_new_def initializeBoard_def)
  let ?r = "minimax (AIPlayer_new Medium) (\<lambda>k. int k) 3 True (GameModel_new, 0) NegInf PosInf"
  let ?b = "getBestMove (AIPlayer_new Medium) (\<lambda>k. int k) (1 / 2) (1 / 2) (GameModel_new, 0)"
  have e1: "?r = (fst ?r, fst (snd ?r), snd (snd ?r))" by simp
  have e2: "?b = (fst ?b, fst (snd ?b), snd (snd ?b))" by simp
  from search_restores_engine [OF i e1 e2] i show ?thesis by (simp add: f Let_def)
qed

section \<open>The selected move is legal\<close>

lemma maxLoop_Cons:
  "maxLoop rec ai clk ((row, col) # ms) alpha beta maxScore bestMove gt =
     (let mk = makeMove clk row col ((fst gt)\<lparr>currentPlayer := ai_player ai\<rparr>, snd gt);
          rr = rec (snd mk) alpha beta;
          g5 = (snd (undoMove (fst (snd rr))))\<lparr>currentPlayer := currentPlayer (fst gt)\<rparr>;
          better = score_less maxScore (fst (fst rr));
          alpha' = score_max alpha (fst (fst rr))
      in if score_le beta alpha'
         then ((if better then fst (fst rr) else maxScore,
                if better then Some (row, col) else bestMove), g5, snd (snd rr))
         else maxLoop rec ai clk ms alpha' beta (if better then fst (fst rr) else maxScore)
                (if better then Some (row, col) else bestMove) (g5, snd (snd rr)))"
  by (simp add: Let_def split: prod.splits)

lemma minLoop_Cons:
  "minLoop rec ai clk ((row, col) # ms) alpha beta minScore bestMove gt =
     (let mk = makeMove clk row col ((fst gt)\<lparr>currentPlayer := ai_opponent ai\<rparr>, snd gt);
          rr = rec (snd mk) alpha beta;
          g5 = (snd (undoMove (fst (snd rr))))\<lparr>currentPlayer := currentPlayer (fst gt)\<rparr>;
          better = score_less (fst (fst rr)) minScore;
          beta' = score_min beta (fst (fst rr))
      in if score_le beta' alpha
         then ((if better then fst (fst rr) else minScore,
                if better then Some (row, col) else bestMove), g5, snd (snd rr))
         else minLoop rec ai clk ms alpha beta' (if better then fst (fst rr) else minScore)
                (if better then Some (row, col) else bestMove) (g5, snd (snd rr)))"
  by (simp add: Let_def split: prod.splits)

lemma maxLoop_move:
  "snd (fst (maxLoop rec ai clk ms alpha beta maxScore bestMove gt)) = Some m
   \<Longrightarrow> m \<in> set ms \<or> bestMove = Some m"
proof (induction ms arbitrary: alpha beta maxScore bestMove gt)
  case Nil
  then show ?case by simp
next
  case (Cons x ms)
  obtain row col where x: "x = (row, col)" by (cases x)
  from Cons.prems show ?case
    unfolding x maxLoop_Cons Let_def
    by (auto split: if_splits dest!: Cons.IH)
qed

lemma minLoop_move:
  "snd (fst (minLoop rec ai clk ms alpha beta minScore bestMove gt)) = Some m
   \<Longrightarrow> m \<in> set ms \<or> bestMove = Some m"
proof (induction ms arbitrary: alpha beta minScore bestMove gt)
  case Nil
  then show ?case by simp
next
  case (Cons x ms)
  obtain row col where x: "x = (row, col)" by (cases x)
  from Cons.prems show ?case
    unfolding x minLoop_Cons Let_def
    by (auto split: if_splits dest!: Cons.IH)
qed


lemma minimax_move:
  assumes "snd (fst (minimax ai clk d maximizing (g, t) alpha beta)) = Some m"
  shows "m \<in> set (getRelevantEmptyCells g 2)"
proof (cases d)
  case 0
  with assms show ?thesis by simp
next
  case (Suc d')
  with assms show ?thesis
    by (auto simp: Let_def split: if_splits dest: maxLoop_move minLoop_move)
qed

lemma random_index:
  assumes "0 \<le> u" "u < 1" "0 < k"
  shows "0 \<le> \<lfloor>u * real k\<rfloor> \<and> nat \<lfloor>u * real k\<rfloor> < k"
proof -
  from assms have "0 \<le> u * real k" by simp
  then have a: "0 \<le> \<lfloor>u * real k\<rfloor>" by simp
  from assms have "u * real k < real k" by simp
  then have "\<lfloor>u * real k\<rfloor> < int k" by (simp add: floor_less_iff)
  with a show ?thesis by linarith
qed

lemma addRandomness_mem:
  assumes "0 \<le> u2" "u2 < 1"
  shows "addRandomness ai u1 u2 m alts \<in> insert m (set alts)"
proof (cases "u1 < s_randomness (ai_currentSettings ai) \<and> length alts > 1")
  case False
  then show ?thesis by (auto simp: addRandomness_def)
next
  case True
  then have "0 < min 3 (length alts)" by auto
  from random_index [OF assms this]
  have "nat \<lfloor>u2 * real (min 3 (length alts))\<rfloor> < length alts" by simp
  then have "alts ! nat \<lfloor>u2 * real (min 3 (length alts))\<rfloor> \<in> set alts" by simp
  with True show ?thesis by (simp add: addRandomness_def Let_def)
qed

lemma nthOpt_Some: "nthOpt xs i = Some x \<Longrightarrow> x \<in> set xs"
  by (auto simp: nthOpt_def split: if_splits)

lemma nthOpt_random:
  assumes "0 \<le> u" "u < 1" "xs \<noteq> []"
  shows "nthOpt xs \<lfloor>u * real (length xs)\<rfloor> \<noteq> None"
  using random_index [OF assms(1,2), of "length xs"] assms(3) by (simp add: nthOpt_def)

lemma getCell_zero:
  assumes "getCell g row col = Inr (Num 0)"
  shows "stoneAt (board g) (boardSize g) 0 (row, col)"
  using assms
  by (auto simp: getCell_def boardRead_def stoneAt_def isValidPosition_def cellAt_def
           split: if_splits)

lemma getEmptyCells_set:
  "set (getEmptyCells g) = {m. stoneAt (board g) (boardSize g) 0 m}"
  by (auto simp: getEmptyCells_def set_allCells stoneAt_def)

lemma centerMoves_empty:
  assumes "m \<in> set (centerMoves g)"
  shows "stoneAt (board g) (boardSize g) 0 m"
proof -
  from assms have "getCell g (fst m) (snd m) = Inr (Num 0)"
    unfolding centerMoves_def Let_def set_filter by (simp only: mem_Collect_eq split_beta)
  from getCell_zero [OF this] show ?thesis by simp
qed

lemma getRandomCenterMove_Some:
  assumes "getRandomCenterMove g u = Some m"
  shows "stoneAt (board g) (boardSize g) 0 m"
proof (cases "length (centerMoves g) = 0 \<and> length (getEmptyCells g) > 0")
  case True
  with assms have "nthOpt (getEmptyCells g) \<lfloor>u * real (length (getEmptyCells g))\<rfloor> = Some m"
    by (simp add: getRandomCenterMove_def Let_def)
  from nthOpt_Some [OF this] show ?thesis by (simp add: getEmptyCells_set)
next
  case False
  with assms have "nthOpt (centerMoves g) \<lfloor>u * real (length (centerMoves g))\<rfloor> = Some m"
    by (auto simp: getRandomCenterMove_def Let_def split: if_splits)
  from centerMoves_empty [OF nthOpt_Some [OF this]] show ?thesis .
qed

lemma getRandomCenterMove_exists:
  assumes "0 \<le> u" "u < 1" and "stoneAt (board g) (boardSize g) 0 m"
  shows "getRandomCenterMove g u \<noteq> None"
proof -
  from assms(3) have ne: "getEmptyCells g \<noteq> []"
    using getEmptyCells_set [of g] by auto
  show ?thesis
  proof (cases "centerMoves g = []")
    case True
    with ne nthOpt_random [OF assms(1,2) ne] show ?thesis
      by (simp add: getRandomCenterMove_def Let_def)
  next
    case False
    with nthOpt_random [OF assms(1,2) False] show ?thesis
      by (simp add: getRandomCenterMove_def Let_def)
  qed
qed

lemma stoneAt_valid:
  "gameStatus g = Playing \<Longrightarrow> stoneAt (board g) (boardSize g) 0 m \<Longrightarrow> isValidMove g (fst m) (snd m)"
  by (simp add: isValidMove_def isValidPosition_def stoneAt_def)


text \<open>
  Claim C3. For every state in progress (with a square board and, as in every
  state reachable by legal moves, no winner or winning line recorded), every
  difficulty, every clock and all random draws in \<open>[0, 1)\<close>: the move that
  \<open>getBestMove\<close> returns, if any, satisfies \<open>isValidMove\<close>, in the state before
  the call and in the state the call leaves; and if the board has an empty
  cell, \<open>getBestMove\<close> returns a move.
\<close>

theorem getBestMove_legal:
  assumes inv: "stateInv g" and pl: "gameStatus g = Playing"
    and u1: "0 \<le> u1 \<and> u1 < 1" and u2: "0 \<le> u2 \<and> u2 < 1"
    and r: "getBestMove ai clk u1 u2 (g, t) = (mv, g', t')"
  shows "(\<forall>m. mv = Some m \<longrightarrow> isValidMove g (fst m) (snd m) \<and> isValidMove g' (fst m) (snd m))
         \<and> ((\<exists>m. stoneAt (board g) (boardSize g) 0 m) \<longrightarrow> mv \<noteq> None)"
proof -
  let ?w = "fst (findWinningMove (board g) (boardSize g) (ai_player ai))"
  let ?k = "fst (findWinningMove (board g) (boardSize g) (ai_opponent ai))"
  let ?r = "minimax ai clk (s_depth (ai_currentSettings ai)) True (g, t) NegInf PosInf"
  let ?P = "\<lambda>mv. (\<forall>m. mv = Some m \<longrightarrow> stoneAt (board g) (boardSize g) 0 m)
                 \<and> ((\<exists>m. stoneAt (board g) (boardSize g) 0 m) \<longrightarrow> mv \<noteq> None)"
  from sameButStartTime_fields [OF getBestMove_restores [OF inv, of ai clk u1 u2 t]] r
  have same: "board g' = board g" "boardSize g' = boardSize g" "gameStatus g' = gameStatus g"
    by simp_all
  have valid': "isValidMove g' (fst m) (snd m)" if "isValidMove g (fst m) (snd m)" for m
    using that by (simp add: isValidMove_def isValidPosition_def same)
  have "?P mv"
  proof (cases ?w)
    case (Some x)
    from getBestMove_win [OF Some, of clk u1 u2 t] r have "mv = Some x" by simp
    with findWinningMove_Some [OF Some] show ?thesis by simp
  next
    case None
    note w = this
    show ?thesis
    proof (cases ?k)
      case (Some x)
      from getBestMove_block [OF w Some, of clk u1 u2 t] r have "mv = Some x" by simp
      with findWinningMove_Some [OF Some] show ?thesis by simp
    next
      case None
      note k = this
      from sameButStartTime_fields
             [OF minimax_restores [OF inv, of ai clk "s_depth (ai_currentSettings ai)" True t NegInf PosInf]]
      have sm: "board (fst (snd ?r)) = board g" "boardSize (fst (snd ?r)) = boardSize g"
        by simp_all
      have rel: "getRelevantEmptyCells (fst (snd ?r)) 2 = getRelevantEmptyCells g 2"
        by (rule getRelevantEmptyCells_cong [OF sm])
      show ?thesis
      proof (cases "snd (fst ?r)")
        case None
        from getBestMove_search [OF w k, of clk u1 u2 t] r None
        have mv: "mv = getRandomCenterMove (fst (snd ?r)) u1" by (simp add: Let_def)
        have a: "stoneAt (board g) (boardSize g) 0 m" if "mv = Some m" for m
          using getRandomCenterMove_Some [of "fst (snd ?r)" u1 m] that mv by (simp add: sm)
        have b: "mv \<noteq> None" if "stoneAt (board g) (boardSize g) 0 m" for m
          using getRandomCenterMove_exists [of u1 "fst (snd ?r)" m] that u1 mv by (simp add: sm)
        from a b show ?thesis by blast
      next
        case (Some x)
        from getBestMove_search [OF w k, of clk u1 u2 t] r Some
        have mv: "mv = Some (addRandomness ai u1 u2 x (getRelevantEmptyCells g 2))"
          by (simp add: Let_def rel)
        from addRandomness_mem [of u2 ai u1 x "getRelevantEmptyCells g 2"] u2 minimax_move [OF Some]
        have "addRandomness ai u1 u2 x (getRelevantEmptyCells g 2) \<in> set (getRelevantEmptyCells g 2)"
          by auto
        with getRelevantEmptyCells_empty [of g 2]
        have "stoneAt (board g) (boardSize g) 0 (addRandomness ai u1 u2 x (getRelevantEmptyCells g 2))"
          by blast
        with mv show ?thesis by simp
      qed
    qed
  qed
  with pl valid' show ?thesis by (blast intro: stoneAt_valid)
qed

theorem getBestMove_legal_witness:
  "stateInv GameModel_new \<and> gameStatus GameModel_new = Playing
   \<and> stoneAt (board GameModel_new) (boardSize GameModel_new) 0 (7, 7)
   \<and> (\<exists>m. fst (getBestMove (AIPlayer_new Easy) (\<lambda>k. int k) (1 / 4) (3 / 4) (GameModel_new, 0)) = Some m
          \<and> isValidMove GameModel_new (fst m) (snd m))"
proof -
  have i: "stateInv GameModel_new" using stateInv_fresh [of 0] by (simp add: setBoardSize_def)
  have p: "gameStatus GameModel_new = Playing" by (simp add: GameModel_new_def initializeBoard_def)
  have e: "stoneAt (board GameModel_new) (boardSize GameModel_new) 0 (7, 7)"
    by (simp add: stoneAt_def new_board new_boardSize cellAt_def)
  have u1: "(0 :: real) \<le> 1 / 4 \<and> (1 / 4 :: real) < 1" and u2: "(0 :: real) \<le> 3 / 4 \<and> (3 / 4 :: real) < 1"
    by simp_all
  let ?b = "getBestMove (AIPlayer_new Easy) (\<lambda>k. int k) (1 / 4) (3 / 4) (GameModel_new, 0)"
  have r: "?b = (fst ?b, fst (snd ?b), snd (snd ?b))" by simp
  from getBestMove_legal [OF i p u1 u2 r] e i p show ?thesis by (cases "fst ?b") auto
qed

end
